theory Spec2Isabelle
  imports Complex_Main
begin

section \<open>Floating-point numbers\<close>

text \<open>
  The inference driver computes its schedules on numpy float64 scalars and arrays,
  stores \<open>T\<close> as float32 and runs the sampler on torch float32 tensors. A floating-point
  value is a real number, an infinity or NaN; every arithmetic operation computes
  the exact result and rounds it to the nearest value of its format, ties to even,
  with gradual underflow and overflow to infinity, as IEEE 754 prescribes. Three
  things are left out: the sign of a zero is not kept (a division by zero takes the
  zero as positive); the power \<open>x ** 0.5\<close> is the correctly rounded square root (and
  infinite at either infinity, as C's \<open>pow\<close>); a numpy scalar operation warns and
  returns an infinity or NaN where Python's own float would raise.
\<close>

record format =
  prec :: nat
  emin :: int
  emax :: int

definition binary64 :: format where
  "binary64 = \<lparr>prec = 53, emin = - 1022, emax = 1023\<rparr>"

definition binary32 :: format where
  "binary32 = \<lparr>prec = 24, emin = - 126, emax = 127\<rparr>"

definition wf_format :: "format \<Rightarrow> bool" where
  "wf_format fmt = (1 \<le> prec fmt \<and> emin fmt \<le> 0 \<and> 0 \<le> emax fmt)"

datatype fval = Fin real | PInf | NInf | NaN

fun find_exp :: "nat \<Rightarrow> int \<Rightarrow> real \<Rightarrow> int" where
  \<comment> \<open>The largest exponent \<open>e' \<le> e\<close> with \<open>2 ^ e' \<le> x\<close>, looking at most \<open>k\<close> steps down.\<close>
  "find_exp 0 e x = e"
| "find_exp (Suc k) e x = (if 2 powi e \<le> x then e else find_exp k (e - 1) x)"

definition expo :: "format \<Rightarrow> real \<Rightarrow> int" where
  \<comment> \<open>The exponent of the binade of \<open>x \<ge> 0\<close>, kept within \<open>emin .. emax\<close>.\<close>
  "expo fmt x = find_exp (nat (emax fmt - emin fmt)) (emax fmt) x"

definition ulp :: "format \<Rightarrow> real \<Rightarrow> real" where
  \<comment> \<open>The distance between neighbouring values of the format in the binade of \<open>x\<close>.\<close>
  "ulp fmt x = 2 powi (expo fmt x - int (prec fmt) + 1)"

definition rne :: "real \<Rightarrow> int" where
  \<comment> \<open>The nearest integer, a tie going to the even one.\<close>
  "rne z = (let f = \<lfloor>z\<rfloor>; r = z - of_int f
            in if r < 1 / 2 then f else if 1 / 2 < r then f + 1
               else if even f then f else f + 1)"

definition rnd :: "format \<Rightarrow> real \<Rightarrow> real" where
  \<comment> \<open>The nearest multiple of the spacing in the binade of \<open>x\<close>.\<close>
  "rnd fmt x = sgn x * (of_int (rne (\<bar>x\<bar> / ulp fmt \<bar>x\<bar>)) * ulp fmt \<bar>x\<bar>)"

definition round_to :: "format \<Rightarrow> real \<Rightarrow> fval" where
  "round_to fmt x =
     (let v = rnd fmt x
      in if 2 powi (emax fmt + 1) \<le> v then PInf
         else if v \<le> - (2 powi (emax fmt + 1)) then NInf
         else Fin v)"

fun fneg :: "fval \<Rightarrow> fval" where
  "fneg (Fin a) = Fin (- a)"
| "fneg PInf = NInf"
| "fneg NInf = PInf"
| "fneg NaN = NaN"

fun fadd :: "format \<Rightarrow> fval \<Rightarrow> fval \<Rightarrow> fval" where
  "fadd fmt (Fin a) (Fin b) = round_to fmt (a + b)"
| "fadd fmt NaN y = NaN"
| "fadd fmt x NaN = NaN"
| "fadd fmt PInf NInf = NaN"
| "fadd fmt NInf PInf = NaN"
| "fadd fmt PInf y = PInf"
| "fadd fmt x PInf = PInf"
| "fadd fmt NInf y = NInf"
| "fadd fmt x NInf = NInf"

definition fsub :: "format \<Rightarrow> fval \<Rightarrow> fval \<Rightarrow> fval" where
  "fsub fmt x y = fadd fmt x (fneg y)"

fun fmul :: "format \<Rightarrow> fval \<Rightarrow> fval \<Rightarrow> fval" where
  "fmul fmt (Fin a) (Fin b) = round_to fmt (a * b)"
| "fmul fmt NaN y = NaN"
| "fmul fmt x NaN = NaN"
| "fmul fmt (Fin a) y = (if a = 0 then NaN else if (0 < a) = (y = PInf) then PInf else NInf)"
| "fmul fmt x (Fin b) = (if b = 0 then NaN else if (0 < b) = (x = PInf) then PInf else NInf)"
| "fmul fmt x y = (if x = y then PInf else NInf)"

fun fdiv :: "format \<Rightarrow> fval \<Rightarrow> fval \<Rightarrow> fval" where
  "fdiv fmt (Fin a) (Fin b) =
     (if b = 0 then (if a = 0 then NaN else if 0 < a then PInf else NInf)
      else round_to fmt (a / b))"
| "fdiv fmt NaN y = NaN"
| "fdiv fmt x NaN = NaN"
| "fdiv fmt (Fin a) y = Fin 0"
| "fdiv fmt x (Fin b) = (if (0 \<le> b) = (x = PInf) then PInf else NInf)"
| "fdiv fmt x y = NaN"

fun pow_half :: "format \<Rightarrow> fval \<Rightarrow> fval" where
  \<comment> \<open>\<open>x ** 0.5\<close>\<close>
  "pow_half fmt (Fin a) = (if a < 0 then NaN else round_to fmt (sqrt a))"
| "pow_half fmt PInf = PInf"
| "pow_half fmt NInf = PInf"
| "pow_half fmt NaN = NaN"

fun fle :: "fval \<Rightarrow> fval \<Rightarrow> bool" where
  \<comment> \<open>\<open>x <= y\<close>: false as soon as one side is NaN.\<close>
  "fle (Fin a) (Fin b) = (a \<le> b)"
| "fle NaN y = False"
| "fle x NaN = False"
| "fle NInf y = True"
| "fle x PInf = True"
| "fle x y = False"

fun flt :: "fval \<Rightarrow> fval \<Rightarrow> bool" where
  \<comment> \<open>\<open>x < y\<close>\<close>
  "flt (Fin a) (Fin b) = (a < b)"
| "flt NaN y = False"
| "flt x NaN = False"
| "flt PInf y = False"
| "flt x NInf = False"
| "flt x y = True"

fun fcast :: "format \<Rightarrow> fval \<Rightarrow> fval" where
  \<comment> \<open>Conversion to another format.\<close>
  "fcast fmt (Fin a) = round_to fmt a"
| "fcast fmt x = x"

definition fnat :: "nat \<Rightarrow> fval" where
  \<comment> \<open>A Python int as a float64 operand.\<close>
  "fnat n = round_to binary64 (real n)"

definition lit :: "real \<Rightarrow> fval" where
  \<comment> \<open>A decimal literal of the source: the nearest float64.\<close>
  "lit x = round_to binary64 x"

section \<open>Errors\<close>

datatype error = IndexError | ValueError | AttributeError | ZeroDivisionError

definition bind_e :: "error + 'a \<Rightarrow> ('a \<Rightarrow> error + 'b) \<Rightarrow> error + 'b" where
  "bind_e m f = (case m of Inl e \<Rightarrow> Inl e | Inr x \<Rightarrow> f x)"

definition index :: "'a list \<Rightarrow> nat \<Rightarrow> error + 'a" where
  \<comment> \<open>\<open>xs[n]\<close> for a non-negative \<open>n\<close>: IndexError when out of range.\<close>
  "index xs n = (if n < length xs then Inr (xs ! n) else Inl IndexError)"

section \<open>Schedule builder (\<open>main\<close>, lines 267-283)\<close>

definition one_minus :: "fval list \<Rightarrow> fval list" where
  \<comment> \<open>\<open>1 - schedule\<close> on a float64 array.\<close>
  "one_minus bs = map (\<lambda>b. fsub binary64 (Fin 1) b) bs"

fun cumprod_from :: "fval \<Rightarrow> fval list \<Rightarrow> fval list" where
  "cumprod_from acc [] = []"
| "cumprod_from acc (x # xs) = fmul binary64 acc x # cumprod_from (fmul binary64 acc x) xs"

fun cumprod :: "fval list \<Rightarrow> fval list" where
  \<comment> \<open>\<open>np.cumprod\<close>: element 0 is the first factor, element \<open>i\<close> the rounded product of
      element \<open>i - 1\<close> and factor \<open>i\<close>.\<close>
  "cumprod [] = []"
| "cumprod (x # xs) = x # cumprod_from x xs"

definition twiddle :: "fval \<Rightarrow> fval \<Rightarrow> fval \<Rightarrow> fval" where
  \<comment> \<open>Lines 278-280, with \<open>hi = talpha_cum[t]\<close>, \<open>a = alpha_cum[s]\<close>,
      \<open>lo = talpha_cum[t + 1]\<close>.\<close>
  "twiddle hi a lo =
     fdiv binary64 (fsub binary64 (pow_half binary64 hi) (pow_half binary64 a))
       (fsub binary64 (pow_half binary64 hi) (pow_half binary64 lo))"

function bracket_scan :: "fval list \<Rightarrow> fval \<Rightarrow> nat \<Rightarrow> fval option" where
  "bracket_scan talpha_cum a t =
     (if t + 1 < length talpha_cum then
        (if fle (talpha_cum ! (t + 1)) a \<and> fle a (talpha_cum ! t)
         then Some (fadd binary64 (fnat t) (twiddle (talpha_cum ! t) a (talpha_cum ! (t + 1))))
         else bracket_scan talpha_cum a (t + 1))
      else None)"
  by pat_completeness auto
termination
  by (relation "measure (\<lambda>(talpha_cum, a, t). length talpha_cum - t)") auto

declare bracket_scan.simps [simp del]

definition append_found :: "fval list \<Rightarrow> fval list \<Rightarrow> fval list \<Rightarrow> nat \<Rightarrow> fval list" where
  \<comment> \<open>The body of the loop over \<open>s\<close>: \<open>T.append(t + twiddle)\<close> at the first bracket,
      nothing when there is none.\<close>
  "append_found talpha_cum alpha_cum T s =
     (case bracket_scan talpha_cum (alpha_cum ! s) 0 of None \<Rightarrow> T | Some v \<Rightarrow> T @ [v])"

definition time_warp :: "fval list \<Rightarrow> fval list \<Rightarrow> fval list" where
  \<comment> \<open>Lines 274-283; \<open>alpha_cum\<close> has the length of the inference schedule, and line 283
      stores the list as float32.\<close>
  "time_warp talpha_cum alpha_cum =
     map (fcast binary32)
       (foldl (append_found talpha_cum alpha_cum) [] [0..<length alpha_cum])"

definition schedule_builder :: "fval list \<Rightarrow> fval list \<Rightarrow> fval list" where
  \<comment> \<open>Lines 267-283: from the training and the inference schedule to \<open>T\<close>.\<close>
  "schedule_builder training_noise_schedule inference_noise_schedule =
     (let talpha = one_minus training_noise_schedule;
          talpha_cum = cumprod talpha;
          beta = inference_noise_schedule;
          alpha = one_minus beta;
          alpha_cum = cumprod alpha
      in time_warp talpha_cum alpha_cum)"

definition valid_beta :: "fval \<Rightarrow> bool" where
  \<comment> \<open>A float64 strictly between 0 and 1.\<close>
  "valid_beta b = (case b of Fin r \<Rightarrow> 0 < r \<and> r < 1 \<and> rnd binary64 r = r | _ \<Rightarrow> False)"

definition valid_schedule :: "fval list \<Rightarrow> bool" where
  \<comment> \<open>A noise schedule whose values all lie in (0,1).\<close>
  "valid_schedule bs = list_all valid_beta bs"

definition in_unit :: "fval \<Rightarrow> bool" where
  \<comment> \<open>A number in [0,1].\<close>
  "in_unit v = (case v of Fin r \<Rightarrow> 0 \<le> r \<and> r \<le> 1 | _ \<Rightarrow> False)"

definition unit_float :: "fval \<Rightarrow> bool" where
  \<comment> \<open>A float64 in [0,1].\<close>
  "unit_float v = (case v of Fin r \<Rightarrow> 0 \<le> r \<and> r \<le> 1 \<and> rnd binary64 r = r | _ \<Rightarrow> False)"

definition in_range :: "fval list \<Rightarrow> fval \<Rightarrow> bool" where
  \<comment> \<open>\<open>a\<close> lies between the last and the first cumulative alpha of the training schedule.\<close>
  "in_range talpha_cum a =
     (talpha_cum \<noteq> [] \<and> fle (last talpha_cum) a \<and> fle a (hd talpha_cum))"

definition distinct_roots :: "fval list \<Rightarrow> bool" where
  \<comment> \<open>The computed square roots of neighbouring entries differ.\<close>
  "distinct_roots xs =
     list_all (\<lambda>(hi, lo). pow_half binary64 hi \<noteq> pow_half binary64 lo) (zip xs (tl xs))"

section \<open>Reverse diffusion sampler (\<open>predict\<close>, lines 118-169; \<open>main\<close>, lines 309-338)\<close>

text \<open>
  A tensor is the list of its float32 elements. The operands of an elementwise
  operation have the shape of the audio tensor: the injected noise by \<open>randn_like\<close>,
  the denoiser's output and \<open>target_std\<close> by their callers. Each elementwise operation
  rounds to float32, and a float64 scalar operand is converted to float32 first. The
  schedule arrays \<open>alpha\<close>, \<open>alpha_cum\<close> and \<open>beta\<close> are float64 numpy arrays, as \<open>main\<close>
  builds them. The global random generator of torch is a function from the number of
  the draw and the position in the drawn tensor to the value drawn there; seeding
  the generator fixes this function, and the sampler's state counts the draws made
  so far. The state also counts the calls of the denoising network.
\<close>

type_synonym tensor = "fval list"

type_synonym generator = "nat \<Rightarrow> nat \<Rightarrow> fval"

definition randn :: "generator \<Rightarrow> nat \<Rightarrow> nat \<Rightarrow> tensor" where
  \<comment> \<open>Draw number \<open>k\<close> of the generator, as a tensor of \<open>numel\<close> elements.\<close>
  "randn g k numel = map (g k) [0..<numel]"

definition tscale :: "fval \<Rightarrow> tensor \<Rightarrow> tensor" where
  "tscale c x = map (\<lambda>v. fmul binary32 (fcast binary32 c) v) x"

definition tsub :: "tensor \<Rightarrow> tensor \<Rightarrow> tensor" where
  "tsub x y = map2 (\<lambda>u v. fsub binary32 u v) x y"

definition tadd :: "tensor \<Rightarrow> tensor \<Rightarrow> tensor" where
  "tadd x y = map2 (\<lambda>u v. fadd binary32 u v) x y"

definition tmul :: "tensor \<Rightarrow> tensor \<Rightarrow> tensor" where
  "tmul x y = map2 (\<lambda>u v. fmul binary32 u v) x y"

definition clamp_value :: "fval \<Rightarrow> fval \<Rightarrow> fval \<Rightarrow> fval" where
  \<comment> \<open>\<open>min(max(v, lo), hi)\<close>, a NaN staying NaN.\<close>
  "clamp_value v lo hi =
     (case v of NaN \<Rightarrow> NaN | _ \<Rightarrow> if flt v lo then lo else if flt hi v then hi else v)"

definition clamp :: "tensor \<Rightarrow> fval \<Rightarrow> fval \<Rightarrow> tensor" where
  \<comment> \<open>\<open>torch.clamp(x, lo, hi)\<close>\<close>
  "clamp x lo hi = map (\<lambda>v. clamp_value v lo hi) x"

record ('c, 'g) sampler_inputs =
  model :: "tensor \<Rightarrow> 'c \<Rightarrow> fval \<Rightarrow> 'g \<Rightarrow> tensor"
  gen :: generator
  spectrogram :: 'c
  global_cond :: 'g
  target_std :: tensor
  batch :: nat
  frames :: nat
  audio_channels :: nat
  hop_samples :: nat
  T :: "fval list"
  alpha :: "fval list"
  alpha_cum :: "fval list"
  beta :: "fval list"

record sampler_state =
  audio :: tensor
  draws :: nat
  calls :: nat

definition inject_noise :: "('c, 'g) sampler_inputs \<Rightarrow> nat \<Rightarrow> sampler_state \<Rightarrow> error + sampler_state" where
  \<comment> \<open>Lines 162-166, the body of \<open>if n > 0\<close>.\<close>
  "inject_noise inp n st =
     (let noise = tmul (randn (gen inp) (draws st) (length (audio st))) (target_std inp);
          st1 = st\<lparr>draws := Suc (draws st)\<rparr>
      in bind_e (index (alpha_cum inp) (n - 1)) (\<lambda>ac_prev.
         bind_e (index (alpha_cum inp) n) (\<lambda>ac_n.
         bind_e (index (beta inp) n) (\<lambda>b_n.
           let sigma = pow_half binary64
                 (fmul binary64
                    (fdiv binary64 (fsub binary64 (Fin 1) ac_prev) (fsub binary64 (Fin 1) ac_n))
                    b_n)
           in Inr (st1\<lparr>audio := tadd (audio st1) (tscale sigma noise)\<rparr>)))))"

definition denoise_update :: "('c, 'g) sampler_inputs \<Rightarrow> nat \<Rightarrow> sampler_state \<Rightarrow> error + sampler_state" where
  \<comment> \<open>Lines 148-159: \<open>c1\<close>, \<open>c2\<close> and the update of \<open>audio\<close> from one call of the model.\<close>
  "denoise_update inp n st =
     bind_e (index (alpha inp) n) (\<lambda>a_n.
       let c1 = fdiv binary64 (Fin 1) (pow_half binary64 a_n)
       in bind_e (index (beta inp) n) (\<lambda>b_n.
          bind_e (index (alpha_cum inp) n) (\<lambda>ac_n.
            let c2 = fdiv binary64 b_n (pow_half binary64 (fsub binary64 (Fin 1) ac_n))
            in bind_e (index (T inp) n) (\<lambda>T_n.
                 let eps = model inp (audio st) (spectrogram inp) T_n (global_cond inp)
                 in Inr (st\<lparr>audio := tscale c1 (tsub (audio st) (tscale c2 eps)),
                           calls := Suc (calls st)\<rparr>)))))"

definition sampler_step :: "('c, 'g) sampler_inputs \<Rightarrow> nat \<Rightarrow> sampler_state \<Rightarrow> error + sampler_state" where
  \<comment> \<open>Lines 148-167, one iteration of the loop at index \<open>n\<close>.\<close>
  "sampler_step inp n st =
     bind_e (denoise_update inp n st) (\<lambda>st1.
     bind_e (if n > 0 then inject_noise inp n st1 else Inr st1) (\<lambda>st2.
       Inr (st2\<lparr>audio := clamp (audio st2) (Fin (- 1)) (Fin 1)\<rparr>)))"

fun sampler_loop :: "('c, 'g) sampler_inputs \<Rightarrow> nat \<Rightarrow> sampler_state \<Rightarrow> error + sampler_state" where
  \<comment> \<open>\<open>for n in range(len(alpha) - 1, -1, -1)\<close>: the second argument is the number of
      iterations left, the next index is one less.\<close>
  "sampler_loop inp 0 st = Inr st"
| "sampler_loop inp (Suc n) st = bind_e (sampler_step inp n st) (sampler_loop inp n)"

definition initial_numel :: "('c, 'g) sampler_inputs \<Rightarrow> error + nat" where
  \<comment> \<open>Lines 136-142: the shape of the first draw, \<open>batch\<close> and \<open>frames\<close> being
      \<open>spectrogram.shape[0]\<close> and \<open>spectrogram.shape[-1]\<close>.\<close>
  "initial_numel inp =
     (if audio_channels inp = 0 then Inl ZeroDivisionError
      else Inr (batch inp * audio_channels inp *
                (hop_samples inp * frames inp div audio_channels inp)))"

definition predict_state :: "('c, 'g) sampler_inputs \<Rightarrow> error + sampler_state" where
  \<comment> \<open>Lines 135-167: the first draw, then the loop.\<close>
  "predict_state inp =
     bind_e (initial_numel inp) (\<lambda>numel.
       sampler_loop inp (length (alpha inp))
         \<lparr>audio = tmul (randn (gen inp) 0 numel) (target_std inp), draws = 1, calls = 0\<rparr>)"

definition predict :: "('c, 'g) sampler_inputs \<Rightarrow> error + tensor" where
  "predict inp = bind_e (predict_state inp) (\<lambda>st. Inr (audio st))"

definition in_unit_range :: "tensor \<Rightarrow> bool" where
  \<comment> \<open>Every element is a number in [-1, 1].\<close>
  "in_unit_range x = list_all (\<lambda>v. case v of Fin r \<Rightarrow> - 1 \<le> r \<and> r \<le> 1 | _ \<Rightarrow> False) x"

definition nan_or_in_unit_range :: "tensor \<Rightarrow> bool" where
  \<comment> \<open>Every element is NaN or a number in [-1, 1].\<close>
  "nan_or_in_unit_range x =
     list_all (\<lambda>v. case v of Fin r \<Rightarrow> - 1 \<le> r \<and> r \<le> 1 | NaN \<Rightarrow> True | _ \<Rightarrow> False) x"

definition consistent_lengths :: "('c, 'g) sampler_inputs \<Rightarrow> bool" where
  \<comment> \<open>The data model's invariant on the schedule arrays: \<open>alpha\<close>, \<open>alpha_cum\<close> and \<open>T\<close>
      have one entry per step of the inference schedule \<open>beta\<close>.\<close>
  "consistent_lengths inp =
     (length (alpha inp) = length (beta inp) \<and> length (alpha_cum inp) = length (beta inp) \<and>
      length (T inp) = length (beta inp))"

subsection \<open>The sampler as the specification words it\<close>

definition spec_iteration :: "('c, 'g) sampler_inputs \<Rightarrow> nat \<Rightarrow> sampler_state \<Rightarrow> sampler_state" where
  \<comment> \<open>Written from the specification's section 4.2, not from the source: the update
      with \<open>c1\<close> and \<open>c2\<close>, the noise with \<open>sigma\<close> exactly when \<open>n > 0\<close>, the clamp.\<close>
  "spec_iteration inp n st =
     (let c1 = fdiv binary64 (Fin 1) (pow_half binary64 (alpha inp ! n));
          c2 = fdiv binary64 (beta inp ! n)
                 (pow_half binary64 (fsub binary64 (Fin 1) (alpha_cum inp ! n)));
          f = model inp (audio st) (spectrogram inp) (T inp ! n) (global_cond inp);
          updated = map (\<lambda>(x, e). fmul binary32 (fcast binary32 c1)
                       (fsub binary32 x (fmul binary32 (fcast binary32 c2) e)))
                      (zip (audio st) f);
          sigma = pow_half binary64
                    (fmul binary64
                       (fdiv binary64 (fsub binary64 (Fin 1) (alpha_cum inp ! (n - 1)))
                          (fsub binary64 (Fin 1) (alpha_cum inp ! n)))
                       (beta inp ! n));
          noise = randn (gen inp) (draws st) (length updated);
          noised = map (\<lambda>(x, z, sd). fadd binary32 x
                       (fmul binary32 (fcast binary32 sigma) (fmul binary32 z sd)))
                     (zip updated (zip noise (target_std inp)))
      in \<lparr>audio = clamp (if n > 0 then noised else updated) (Fin (- 1)) (Fin 1),
          draws = (if n > 0 then draws st + 1 else draws st),
          calls = calls st + 1\<rparr>)"

subsection \<open>Small inputs\<close>

definition zero_model :: "tensor \<Rightarrow> unit \<Rightarrow> fval \<Rightarrow> unit \<Rightarrow> tensor" where
  \<comment> \<open>The stub denoiser \<open>f(x, ...) = 0\<close> of the specification's section 8.\<close>
  "zero_model x c t g = map (\<lambda>v. Fin 0) x"

definition one_step_inputs :: "(unit, unit) sampler_inputs" where
  \<comment> \<open>One step, with schedule arrays whose square roots are exact:
      \<open>c1 = 1 / 0.25 ** 0.5 = 2\<close> and \<open>c2 = 0.5 / (1 - 0.75) ** 0.5 = 1\<close>.\<close>
  "one_step_inputs =
     \<lparr>model = zero_model, gen = (\<lambda>k i. Fin 1), spectrogram = (), global_cond = (),
      target_std = [Fin 1, Fin 1], batch = 1, frames = 1, audio_channels = 2, hop_samples = 2,
      T = [Fin 0], alpha = [Fin (1 / 4)], alpha_cum = [Fin (3 / 4)], beta = [Fin (1 / 2)]\<rparr>"

definition two_step_inputs :: "(unit, unit) sampler_inputs" where
  "two_step_inputs =
     \<lparr>model = zero_model, gen = (\<lambda>k i. Fin 1), spectrogram = (), global_cond = (),
      target_std = [Fin 1, Fin 1], batch = 1, frames = 1, audio_channels = 2, hop_samples = 2,
      T = [Fin 0, Fin 1], alpha = [Fin (3 / 4), Fin (1 / 2)],
      alpha_cum = [Fin (3 / 4), Fin (3 / 8)], beta = [Fin (1 / 4), Fin (1 / 2)]\<rparr>"

section \<open>Command line and schedule selection (\<open>main\<close>, lines 184-229 and 259-272)\<close>

record args =
  fast :: bool
  fast_iter :: "int option"

record params =
  noise_schedule :: "fval list"
  inference_noise_schedule :: "fval list"
  enable_remove_cutoff_alias :: "bool option"

text \<open>
  \<open>enable_remove_cutoff_alias\<close> is \<open>None\<close> when the hyperparameter object has no such
  attribute. The fields of \<open>params_saved.params\<close> that the claims do not touch are left
  out.
\<close>

definition linspace :: "fval \<Rightarrow> fval \<Rightarrow> int \<Rightarrow> error + fval list" where
  \<comment> \<open>\<open>np.linspace(start, stop, num).tolist()\<close>: the steps from \<open>arange(0, num) * step\<close>,
      the last entry set to \<open>stop\<close>.\<close>
  "linspace start stop num =
     (if num < 0 then Inl ValueError
      else
        let n = nat num;
            delta = fsub binary64 stop start;
            d = fnat (n - 1);
            step = fdiv binary64 delta d;
            y = (\<lambda>i. if n \<le> 1 then fmul binary64 (fnat i) delta
                      else if step = Fin 0 then fmul binary64 (fdiv binary64 (fnat i) d) delta
                      else fmul binary64 (fnat i) step);
            ys = map (\<lambda>i. fadd binary64 (y i) start) [0..<n]
        in Inr (if 1 < n then butlast ys @ [stop] else ys))"

definition noise_override :: "params \<Rightarrow> int \<Rightarrow> error + fval list" where
  \<comment> \<open>Lines 187-220: \<open>NOISE_OVERRIDE\<close> for a given \<open>--fast_iter\<close>.\<close>
  "noise_override p T_OVERRIDE =
     (if T_OVERRIDE = 6 then
        Inr (take 1 (noise_schedule p) @ [lit 0.0215, lit 0.045, lit 0.08, lit 0.2, lit 0.5])
      else if T_OVERRIDE = 3 then Inr (take 1 (noise_schedule p) @ [lit 0.1, lit 0.95])
      else if T_OVERRIDE = 2 then Inr [lit 0.04, lit 0.95]
      else if T_OVERRIDE = 12 then
        Inr [lit 0.0001, lit 0.0005, lit 0.0008, lit 0.001, lit 0.005, lit 0.008, lit 0.01,
             lit 0.05, lit 0.08, lit 0.1, lit 0.2, lit 0.5]
      else if T_OVERRIDE = 50 then linspace (lit (1 / 10000)) (lit 0.05) T_OVERRIDE
      else linspace (lit (1 / 10000)) (lit 0.05) T_OVERRIDE)"

definition apply_fast_args :: "args \<Rightarrow> params \<Rightarrow> error + params \<times> int option" where
  \<comment> \<open>Lines 184-229: the hyperparameters after the override, and \<open>T_OVERRIDE\<close>.\<close>
  "apply_fast_args a p =
     (let T_OVERRIDE = fast_iter a
      in if fast a then
           (case T_OVERRIDE of
              Some k \<Rightarrow>
                bind_e (noise_override p k) (\<lambda>NOISE_OVERRIDE.
                  Inr (p\<lparr>inference_noise_schedule := NOISE_OVERRIDE\<rparr>, Some k))
            | None \<Rightarrow> Inr (p, Some (int (length (inference_noise_schedule p)))))
         else Inr (p, T_OVERRIDE))"

definition fast_sampling :: bool where
  \<comment> \<open>Line 259.\<close>
  "fast_sampling = False"

definition main_inference_schedule :: "params \<Rightarrow> fval list" where
  \<comment> \<open>Lines 260-265; \<open>model.params\<close> is the \<open>params\<close> the model was built from.\<close>
  "main_inference_schedule p =
     (let training_noise_schedule = noise_schedule p
      in if fast_sampling then inference_noise_schedule p else training_noise_schedule)"

definition main_inputs :: "params \<Rightarrow> ('c, 'g) sampler_inputs \<Rightarrow> ('c, 'g) sampler_inputs" where
  \<comment> \<open>Lines 259-283: the schedule arrays the loop of \<open>main\<close> reads, put into the
      inputs of one example.\<close>
  "main_inputs p example =
     (let inference = main_inference_schedule p
      in example\<lparr>T := schedule_builder (noise_schedule p) inference,
                 alpha := one_minus inference,
                 alpha_cum := cumprod (one_minus inference),
                 beta := inference\<rparr>)"

definition main_sample :: "args \<Rightarrow> params \<Rightarrow> ('c, 'g) sampler_inputs \<Rightarrow> error + sampler_state" where
  \<comment> \<open>\<open>main\<close> up to line 338, for one example of the test set.\<close>
  "main_sample a p example =
     bind_e (apply_fast_args a p) (\<lambda>(p', T_OVERRIDE). predict_state (main_inputs p' example))"

section \<open>Post-processing (lines 89-115 and 341-347)\<close>

text \<open>
  The biquad filters of torchaudio, the slicing of a tensor along its channel axis
  and the inverse wavelet transform are library code: they are parameters, over any
  type of tensors.
\<close>

record 't torch_ops =
  highpass_biquad :: "'t \<Rightarrow> nat \<Rightarrow> real \<Rightarrow> 't"
  lowpass_biquad :: "'t \<Rightarrow> nat \<Rightarrow> real \<Rightarrow> 't"
  channels :: "'t \<Rightarrow> nat \<Rightarrow> nat \<Rightarrow> 't"
  idwt :: "'t \<Rightarrow> 't list \<Rightarrow> 't"
  squeeze1 :: "'t \<Rightarrow> 't"

definition remove_cutoff_alias :: "'t torch_ops \<Rightarrow> 't \<Rightarrow> 't \<Rightarrow> nat \<Rightarrow> 't \<times> 't" where
  "remove_cutoff_alias ops lowpass highpass sr =
     (let lowpass1 = highpass_biquad ops lowpass (sr div 2) 5;
          highpass1 = highpass_biquad ops highpass (sr div 2) 5;
          lowpass2 = lowpass_biquad ops lowpass1 (sr div 2) 5500;
          highpass2 = lowpass_biquad ops highpass1 (sr div 2) 5500
      in (lowpass2, highpass2))"

definition hasattr :: "'a option \<Rightarrow> bool" where
  "hasattr a = (a \<noteq> None)"

definition getattr :: "'a option \<Rightarrow> error + 'a" where
  "getattr a = (case a of None \<Rightarrow> Inl AttributeError | Some v \<Rightarrow> Inr v)"

definition alias_removal_enabled :: "params \<Rightarrow> error + bool" where
  \<comment> \<open>The condition of line 341; \<open>and\<close> reads the attribute only when \<open>hasattr\<close> holds.\<close>
  "alias_removal_enabled p =
     (if hasattr (enable_remove_cutoff_alias p) then getattr (enable_remove_cutoff_alias p)
      else Inr False)"

definition post_process :: "'t torch_ops \<Rightarrow> params \<Rightarrow> 't \<Rightarrow> error + 't" where
  \<comment> \<open>Lines 341-347.\<close>
  "post_process ops p a =
     bind_e (alias_removal_enabled p) (\<lambda>enabled.
       let (l, h) = (if enabled
                     then remove_cutoff_alias ops (channels ops a 0 1) (channels ops a 1 2) 22050
                     else (channels ops a 0 1, channels ops a 1 2))
       in Inr (squeeze1 ops (idwt ops l [h])))"

subsection \<open>Small inputs for the driver and post-processing\<close>

definition list_ops :: "real list torch_ops" where
  \<comment> \<open>Stand-ins for the library operations on flat lists: the filters shift every
      sample, the inverse transform concatenates the bands.\<close>
  "list_ops =
     \<lparr>highpass_biquad = (\<lambda>x sr f. map (\<lambda>v. v + 1) x),
      lowpass_biquad = (\<lambda>x sr f. map (\<lambda>v. v + 2) x),
      channels = (\<lambda>x i j. take (j - i) (drop i x)),
      idwt = (\<lambda>l hs. l @ concat hs),
      squeeze1 = (\<lambda>x. x)\<rparr>"

definition example_params :: params where
  \<comment> \<open>A three-step training schedule, \<open>[1e-4, 0.02505, 0.05]\<close>, and no
      \<open>enable_remove_cutoff_alias\<close> attribute.\<close>
  "example_params =
     \<lparr>noise_schedule = [lit (1 / 10000), lit (501 / 20000), lit (1 / 20)],
      inference_noise_schedule = [lit (1 / 10000), lit (501 / 20000), lit (1 / 20)],
      enable_remove_cutoff_alias = None\<rparr>"

section \<open>Properties of rounding\<close>

subsection \<open>find_exp\<close>

lemma find_exp_le: "find_exp k e x \<le> e"
proof (induction k arbitrary: e)
  case 0
  then show ?case by simp
next
  case (Suc k)
  show ?case using Suc [of "e - 1"] by auto
qed

lemma find_exp_ge: "e - int k \<le> find_exp k e x"
proof (induction k arbitrary: e)
  case 0
  then show ?case by simp
next
  case (Suc k)
  show ?case using Suc [of "e - 1"] by auto
qed

lemma find_exp_lower: "e - int k < find_exp k e x \<Longrightarrow> 2 powi (find_exp k e x) \<le> x"
proof (induction k arbitrary: e)
  case 0
  then show ?case by simp
next
  case (Suc k)
  show ?case
  proof (cases "2 powi e \<le> x")
    case True
    then show ?thesis by simp
  next
    case False
    then show ?thesis using Suc.IH [of "e - 1"] Suc.prems by simp
  qed
qed

lemma find_exp_upper: "find_exp k e x < e \<Longrightarrow> x < 2 powi (find_exp k e x + 1)"
proof (induction k arbitrary: e)
  case 0
  then show ?case by simp
next
  case (Suc k)
  show ?case
  proof (cases "2 powi e \<le> x")
    case True
    then show ?thesis using Suc.prems by simp
  next
    case False
    show ?thesis
    proof (cases "find_exp k (e - 1) x < e - 1")
      case True
      then show ?thesis using Suc.IH [of "e - 1"] False by simp
    next
      case False
      then have "find_exp k (e - 1) x = e - 1" using find_exp_le [of k "e - 1" x] by simp
      then show ?thesis using \<open>\<not> 2 powi e \<le> x\<close> by simp
    qed
  qed
qed

subsection \<open>The exponent\<close>

lemma expo_range:
  assumes "emin fmt \<le> emax fmt"
  shows "emin fmt \<le> expo fmt x" and "expo fmt x \<le> emax fmt"
  using find_exp_ge [of "emax fmt" "nat (emax fmt - emin fmt)" x]
    find_exp_le [of "nat (emax fmt - emin fmt)" "emax fmt" x] assms
  by (simp_all add: expo_def)

lemma expo_lower:
  assumes "emin fmt \<le> emax fmt" and "emin fmt < expo fmt x"
  shows "2 powi (expo fmt x) \<le> x"
  using find_exp_lower [of "emax fmt" "nat (emax fmt - emin fmt)" x] assms
  by (simp add: expo_def)

lemma expo_upper:
  assumes "expo fmt x < emax fmt"
  shows "x < 2 powi (expo fmt x + 1)"
  using find_exp_upper [of "nat (emax fmt - emin fmt)" "emax fmt" x] assms
  by (simp add: expo_def)

lemma expo_eqI:
  assumes wf: "emin fmt \<le> emax fmt"
    and range: "emin fmt \<le> e" "e \<le> emax fmt"
    and lo: "e = emin fmt \<or> 2 powi e \<le> x"
    and hi: "e = emax fmt \<or> x < 2 powi (e + 1)"
  shows "expo fmt x = e"
proof (rule antisym)
  show "expo fmt x \<le> e"
  proof (rule ccontr)
    assume "\<not> expo fmt x \<le> e"
    then have gt: "e < expo fmt x" by simp
    then have "emin fmt < expo fmt x" using range by simp
    then have low: "2 powi (expo fmt x) \<le> x" using expo_lower [OF wf] by simp
    have "e \<noteq> emax fmt" using gt expo_range(2) [OF wf, of x] by simp
    then have "x < 2 powi (e + 1)" using hi by simp
    moreover have "(2::real) powi (e + 1) \<le> 2 powi (expo fmt x)"
      using gt by (intro power_int_increasing) simp_all
    ultimately show False using low by simp
  qed
  show "e \<le> expo fmt x"
  proof (rule ccontr)
    assume "\<not> e \<le> expo fmt x"
    then have lt: "expo fmt x < e" by simp
    then have "expo fmt x < emax fmt" using range by simp
    then have up: "x < 2 powi (expo fmt x + 1)" by (rule expo_upper)
    have "e \<noteq> emin fmt" using lt expo_range(1) [OF wf, of x] by simp
    then have "2 powi e \<le> x" using lo by simp
    moreover have "(2::real) powi (expo fmt x + 1) \<le> 2 powi e"
      using lt by (intro power_int_increasing) simp_all
    ultimately show False using up by simp
  qed
qed

lemma expo_mono:
  assumes wf: "emin fmt \<le> emax fmt" and "x \<le> y"
  shows "expo fmt x \<le> expo fmt y"
proof (rule ccontr)
  assume "\<not> expo fmt x \<le> expo fmt y"
  then have gt: "expo fmt y < expo fmt x" by simp
  then have "emin fmt < expo fmt x" using expo_range(1) [OF wf, of y] by simp
  then have low: "2 powi (expo fmt x) \<le> x" using expo_lower [OF wf] by simp
  have "expo fmt y < emax fmt" using gt expo_range(2) [OF wf, of x] by simp
  then have up: "y < 2 powi (expo fmt y + 1)" by (rule expo_upper)
  have "(2::real) powi (expo fmt y + 1) \<le> 2 powi (expo fmt x)"
    using gt by (intro power_int_increasing) simp_all
  then show False using low up assms(2) by simp
qed

lemma ulp_pos [simp]: "0 < ulp fmt x"
  by (simp add: ulp_def)

lemma ulp_nonneg [simp]: "0 \<le> ulp fmt x"
  by (simp add: ulp_def)

lemma ulp_nonzero [simp]: "ulp fmt x \<noteq> 0"
  by (simp add: ulp_def)

subsection \<open>Rounding to an integer\<close>

lemma rne_of_int [simp]: "rne (of_int n) = n"
  by (simp add: rne_def)

lemma rne_zero [simp]: "rne 0 = 0"
  using rne_of_int [of 0] by simp

lemma rne_ge_floor: "\<lfloor>z\<rfloor> \<le> rne z"
  by (simp add: rne_def Let_def)

lemma rne_le_floor_plus: "rne z \<le> \<lfloor>z\<rfloor> + 1"
  by (simp add: rne_def Let_def)

lemma rne_mono:
  assumes "z \<le> w"
  shows "rne z \<le> rne w"
proof (cases "\<lfloor>z\<rfloor> = \<lfloor>w\<rfloor>")
  case True
  then have "z - of_int \<lfloor>z\<rfloor> \<le> w - of_int \<lfloor>w\<rfloor>" using assms by simp
  then show ?thesis using True by (auto simp: rne_def Let_def)
next
  case False
  then have "\<lfloor>z\<rfloor> < \<lfloor>w\<rfloor>" using assms floor_mono [of z w] by simp
  then have "rne z \<le> \<lfloor>w\<rfloor>" using rne_le_floor_plus [of z] by simp
  then show ?thesis using rne_ge_floor [of w] by simp
qed

lemma rne_le_int:
  assumes "z \<le> of_int n"
  shows "rne z \<le> n"
  using rne_mono [OF assms] by simp

lemma rne_ge_int:
  assumes "of_int n \<le> z"
  shows "n \<le> rne z"
  using rne_mono [OF assms] by simp

lemma rne_nonneg: "0 \<le> z \<Longrightarrow> 0 \<le> rne z"
  using rne_ge_int [of 0 z] by simp

subsection \<open>Rounding a non-negative real\<close>

lemma wf_binary64 [simp]: "wf_format binary64"
  by (simp add: wf_format_def binary64_def)

lemma wf_binary32 [simp]: "wf_format binary32"
  by (simp add: wf_format_def binary32_def)

lemma wf_le: "wf_format fmt \<Longrightarrow> emin fmt \<le> emax fmt"
  by (simp add: wf_format_def)

lemma rnd_nonneg_eq:
  "0 \<le> x \<Longrightarrow> rnd fmt x = of_int (rne (x / ulp fmt x)) * ulp fmt x"
  by (cases "x = 0") (simp_all add: rnd_def)

lemma rnd_zero [simp]: "rnd fmt 0 = 0"
  by (simp add: rnd_def)

lemma rnd_minus: "rnd fmt (- x) = - rnd fmt x"
  by (simp add: rnd_def)

lemma rnd_nonneg:
  assumes "0 \<le> x"
  shows "0 \<le> rnd fmt x"
proof -
  have "0 \<le> x / ulp fmt x" using assms by (intro divide_nonneg_nonneg) simp_all
  then have "0 \<le> rne (x / ulp fmt x)" by (rule rne_nonneg)
  then show ?thesis using assms by (simp add: rnd_nonneg_eq)
qed

lemma two_powi_as_int:
  assumes "0 \<le> k"
  shows "(2::real) powi k = of_int (2 ^ nat k)"
  using assms by (simp add: power_int_nonneg_exp)

lemma two_powi_add: "(2::real) powi a * 2 powi b = 2 powi (a + b)"
  by (simp add: power_int_add)

lemma binade_top:
  "(2::real) powi (e + 1) = of_int (2 ^ p) * 2 powi (e - int p + 1)"
proof -
  have "of_int (2 ^ p) * 2 powi (e - int p + 1) = (2::real) powi (int p) * 2 powi (e - int p + 1)"
    by simp
  also have "\<dots> = 2 powi (int p + (e - int p + 1))" by (rule two_powi_add)
  also have "int p + (e - int p + 1) = e + 1" by simp
  finally show ?thesis by simp
qed

lemma binade_bottom:
  assumes "1 \<le> p"
  shows "(2::real) powi e = of_int (2 ^ (p - 1)) * 2 powi (e - int p + 1)"
proof -
  have "of_int (2 ^ (p - 1)) * 2 powi (e - int p + 1)
      = (2::real) powi (int (p - 1)) * 2 powi (e - int p + 1)"
    by simp
  also have "\<dots> = 2 powi (int (p - 1) + (e - int p + 1))" by (rule two_powi_add)
  also have "int (p - 1) + (e - int p + 1) = e" using assms by simp
  finally show ?thesis by simp
qed

lemma rnd_upper:
  assumes wf: "wf_format fmt" and x: "0 \<le> x" and e: "expo fmt x < emax fmt"
  shows "rnd fmt x \<le> 2 powi (expo fmt x + 1)"
proof -
  let ?u = "ulp fmt x"
  have top: "2 powi (expo fmt x + 1) = of_int (2 ^ prec fmt) * ?u"
    unfolding ulp_def by (rule binade_top)
  have "x < 2 powi (expo fmt x + 1)" using e by (rule expo_upper)
  then have "x \<le> of_int (2 ^ prec fmt) * ?u" using top by simp
  then have "x / ?u \<le> of_int (2 ^ prec fmt)" by (simp add: pos_divide_le_eq)
  then have "rne (x / ?u) \<le> 2 ^ prec fmt" by (rule rne_le_int)
  then have "(of_int (rne (x / ?u)) :: real) \<le> of_int (2 ^ prec fmt)" by (simp only: of_int_le_iff)
  then have "of_int (rne (x / ?u)) * ?u \<le> of_int (2 ^ prec fmt) * ?u"
    by (rule mult_right_mono) simp
  then show ?thesis unfolding top using x by (simp only: rnd_nonneg_eq)
qed

lemma rnd_lower:
  assumes wf: "wf_format fmt" and x: "0 \<le> x" and e: "emin fmt < expo fmt x"
  shows "2 powi (expo fmt x) \<le> rnd fmt x"
proof -
  let ?u = "ulp fmt x"
  have p: "1 \<le> prec fmt" using wf by (simp add: wf_format_def)
  have bot: "2 powi (expo fmt x) = of_int (2 ^ (prec fmt - 1)) * ?u"
    unfolding ulp_def using p by (rule binade_bottom)
  have "2 powi (expo fmt x) \<le> x" using expo_lower [OF wf_le [OF wf] e] .
  then have "of_int (2 ^ (prec fmt - 1)) * ?u \<le> x" using bot by simp
  then have "of_int (2 ^ (prec fmt - 1)) \<le> x / ?u" by (simp add: pos_le_divide_eq)
  then have "2 ^ (prec fmt - 1) \<le> rne (x / ?u)" by (rule rne_ge_int)
  then have "(of_int (2 ^ (prec fmt - 1)) :: real) \<le> of_int (rne (x / ?u))"
    by (simp only: of_int_le_iff)
  then have "of_int (2 ^ (prec fmt - 1)) * ?u \<le> of_int (rne (x / ?u)) * ?u"
    by (rule mult_right_mono) simp
  then show ?thesis unfolding bot using x by (simp only: rnd_nonneg_eq)
qed

lemma rnd_mono_nonneg:
  assumes wf: "wf_format fmt" and "0 \<le> x" and "x \<le> y"
  shows "rnd fmt x \<le> rnd fmt y"
proof -
  have y: "0 \<le> y" using assms by simp
  have le: "expo fmt x \<le> expo fmt y" using expo_mono [OF wf_le [OF wf] assms(3)] .
  show ?thesis
  proof (cases "expo fmt x = expo fmt y")
    case True
    then have u: "ulp fmt x = ulp fmt y" by (simp add: ulp_def)
    have "x / ulp fmt y \<le> y / ulp fmt y" using assms(3) by (rule divide_right_mono) simp
    then have "rne (x / ulp fmt y) \<le> rne (y / ulp fmt y)" by (rule rne_mono)
    then have "of_int (rne (x / ulp fmt y)) * ulp fmt y \<le> of_int (rne (y / ulp fmt y)) * ulp fmt y"
      by (intro mult_right_mono) (simp_all add: less_imp_le)
    then show ?thesis using assms(2) y u by (simp add: rnd_nonneg_eq)
  next
    case False
    then have lt: "expo fmt x < expo fmt y" using le by simp
    then have "expo fmt x < emax fmt" using expo_range(2) [OF wf_le [OF wf], of y] by simp
    then have "rnd fmt x \<le> 2 powi (expo fmt x + 1)" using rnd_upper [OF wf assms(2)] by simp
    also have "(2::real) powi (expo fmt x + 1) \<le> 2 powi (expo fmt y)"
      using lt by (intro power_int_increasing) simp_all
    also have "\<dots> \<le> rnd fmt y"
    proof (rule rnd_lower [OF wf y])
      show "emin fmt < expo fmt y" using lt expo_range(1) [OF wf_le [OF wf], of x] by simp
    qed
    finally show ?thesis .
  qed
qed

lemma rnd_exactI:
  assumes wf: "wf_format fmt" and x: "0 \<le> x"
    and range: "emin fmt \<le> e" "e \<le> emax fmt"
    and lo: "e = emin fmt \<or> 2 powi e \<le> x"
    and hi: "e = emax fmt \<or> x < 2 powi (e + 1)"
    and m: "x / 2 powi (e - int (prec fmt) + 1) = of_int m"
  shows "rnd fmt x = x"
proof -
  have e: "expo fmt x = e" using expo_eqI [OF wf_le [OF wf] range lo hi] .
  then have u: "ulp fmt x = 2 powi (e - int (prec fmt) + 1)" by (simp add: ulp_def)
  have "rnd fmt x = of_int m * ulp fmt x" using x m u by (simp add: rnd_nonneg_eq)
  also have "\<dots> = x" using m [symmetric] u by simp
  finally show ?thesis .
qed

lemma rnd_evalI:
  assumes wf: "wf_format fmt" and x: "0 \<le> x"
    and range: "emin fmt \<le> e" "e \<le> emax fmt"
    and lo: "e = emin fmt \<or> 2 powi e \<le> x"
    and hi: "e = emax fmt \<or> x < 2 powi (e + 1)"
  shows "rnd fmt x = of_int (rne (x / 2 powi (e - int (prec fmt) + 1))) * 2 powi (e - int (prec fmt) + 1)"
proof -
  have e: "expo fmt x = e" using expo_eqI [OF wf_le [OF wf] range lo hi] .
  then show ?thesis using x by (simp add: rnd_nonneg_eq ulp_def)
qed

lemma rnd_idem_nonneg:
  assumes wf: "wf_format fmt" and x: "0 \<le> x"
  shows "rnd fmt (rnd fmt x) = rnd fmt x"
proof -
  let ?e = "expo fmt x"
  let ?v = "rnd fmt x"
  let ?p = "int (prec fmt)"
  have v: "0 \<le> ?v" using x by (rule rnd_nonneg)
  have range: "emin fmt \<le> ?e" "?e \<le> emax fmt" using expo_range [OF wf_le [OF wf]] by simp_all
  have vm: "?v / 2 powi (?e - ?p + 1) = of_int (rne (x / ulp fmt x))"
    using x by (simp add: rnd_nonneg_eq ulp_def)
  have lo: "?e = emin fmt \<or> 2 powi ?e \<le> ?v"
    using rnd_lower [OF wf x] range by (cases "?e = emin fmt") simp_all
  show ?thesis
  proof (cases "?e = emax fmt \<or> ?v < 2 powi (?e + 1)")
    case True
    show ?thesis by (rule rnd_exactI [OF wf v range lo True vm])
  next
    case False
    then have e: "?e < emax fmt" and ge: "2 powi (?e + 1) \<le> ?v" using range by simp_all
    have eq: "?v = 2 powi (?e + 1)" using ge rnd_upper [OF wf x e] by simp
    have p: "1 \<le> prec fmt" using wf by (simp add: wf_format_def)
    show ?thesis
    proof (rule rnd_exactI [OF wf v, of "?e + 1" "2 ^ (prec fmt - 1)"])
      show "emin fmt \<le> ?e + 1" using range by simp
      show "?e + 1 \<le> emax fmt" using e by simp
      show "?e + 1 = emin fmt \<or> 2 powi (?e + 1) \<le> ?v" using ge by simp
      have "(2::real) powi (?e + 1) < 2 powi (?e + 1 + 1)"
        by (intro power_int_strict_increasing) simp_all
      then show "?e + 1 = emax fmt \<or> ?v < 2 powi (?e + 1 + 1)" using eq by simp
      have "?v = of_int (2 ^ (prec fmt - 1)) * 2 powi (?e + 1 - ?p + 1)"
        unfolding eq using p by (rule binade_bottom)
      then show "?v / 2 powi (?e + 1 - ?p + 1) = of_int (2 ^ (prec fmt - 1))"
        by (simp add: nonzero_eq_divide_eq [symmetric])
    qed
  qed
qed

lemma rnd_one [simp]:
  assumes wf: "wf_format fmt"
  shows "rnd fmt 1 = 1"
proof -
  have p: "1 \<le> prec fmt" using wf by (simp add: wf_format_def)
  have one: "(1::real) = of_int (2 ^ (prec fmt - 1)) * 2 powi (0 - int (prec fmt) + 1)"
    using binade_bottom [OF p, of 0] by simp
  show ?thesis
  proof (rule rnd_exactI [OF wf, of _ 0 "2 ^ (prec fmt - 1)"])
    show "emin fmt \<le> 0" "0 \<le> emax fmt" using wf by (simp_all add: wf_format_def)
    show "(1::real) / 2 powi (0 - int (prec fmt) + 1) = of_int (2 ^ (prec fmt - 1))"
      using one by (simp add: nonzero_eq_divide_eq [symmetric])
  qed simp_all
qed

lemma rnd_unit_interval:
  assumes wf: "wf_format fmt" and "0 \<le> x" and "x \<le> 1"
  shows "0 \<le> rnd fmt x" and "rnd fmt x \<le> 1"
  using rnd_nonneg [OF assms(2)] rnd_mono_nonneg [OF wf assms(2) assms(3)] wf by simp_all

lemma b64 [simp]: "prec binary64 = 53" "emin binary64 = - 1022" "emax binary64 = 1023"
  by (simp_all add: binary64_def)

lemma b32 [simp]: "prec binary32 = 24" "emin binary32 = - 126" "emax binary32 = 127"
  by (simp_all add: binary32_def)

subsection \<open>Operations on special values\<close>

lemma round_to_fin:
  assumes "\<bar>rnd fmt x\<bar> < 2 powi (emax fmt + 1)"
  shows "round_to fmt x = Fin (rnd fmt x)"
  using assms by (simp add: round_to_def Let_def abs_less_iff)

lemma round_to_unit:
  assumes wf: "wf_format fmt" and "0 \<le> x" and "x \<le> 1"
  shows "round_to fmt x = Fin (rnd fmt x)"
proof (rule round_to_fin)
  have "0 \<le> emax fmt + 1" using wf by (simp add: wf_format_def)
  then have "(1::real) \<le> 2 powi (emax fmt + 1)" by (intro one_le_power_int) simp_all
  moreover have "(1::real) < 2 powi (emax fmt + 1)"
  proof -
    have "0 < emax fmt + 1" using wf by (simp add: wf_format_def)
    then show ?thesis by (intro one_less_power_int) simp_all
  qed
  ultimately show "\<bar>rnd fmt x\<bar> < 2 powi (emax fmt + 1)"
    using rnd_unit_interval [OF assms] by simp
qed

lemma round_to_zero [simp]: "round_to fmt 0 = Fin 0"
proof -
  have "(0::real) < 2 powi (emax fmt + 1)" by simp
  then show ?thesis by (simp add: round_to_def not_le)
qed

lemma round_to_one [simp]: "wf_format fmt \<Longrightarrow> round_to fmt 1 = Fin 1"
  using round_to_unit [of fmt 1] by simp

lemma fadd_NaN [simp]: "fadd fmt x NaN = NaN" "fadd fmt NaN x = NaN"
  by (cases x; simp)+

lemma fsub_NaN [simp]: "fsub fmt x NaN = NaN" "fsub fmt NaN x = NaN"
  by (simp_all add: fsub_def)

lemma fmul_NaN [simp]: "fmul fmt x NaN = NaN" "fmul fmt NaN x = NaN"
  by (cases x; simp)+

lemma fdiv_NaN [simp]: "fdiv fmt x NaN = NaN" "fdiv fmt NaN x = NaN"
  by (cases x; simp)+

lemma fsub_Fin [simp]: "fsub fmt (Fin a) (Fin b) = round_to fmt (a - b)"
  by (simp add: fsub_def)

lemma fle_refl_Fin [simp]: "fle (Fin a) (Fin a)"
  by simp

lemma fle_NaN [simp]: "\<not> fle x NaN" "\<not> fle NaN x"
  by (cases x; simp)+

lemma unit_floatE:
  assumes "unit_float v"
  obtains r where "v = Fin r" "0 \<le> r" "r \<le> 1" "rnd binary64 r = r"
  using assms by (cases v) (simp_all add: unit_float_def)

lemma unit_floatI: "0 \<le> r \<Longrightarrow> r \<le> 1 \<Longrightarrow> rnd binary64 r = r \<Longrightarrow> unit_float (Fin r)"
  by (simp add: unit_float_def)

lemma unit_float_in_unit: "unit_float v \<Longrightarrow> in_unit v"
  by (cases v) (simp_all add: unit_float_def in_unit_def)

lemma round_unit_float:
  assumes "0 \<le> x" and "x \<le> 1"
  shows "unit_float (round_to binary64 x)"
proof -
  have "round_to binary64 x = Fin (rnd binary64 x)"
    by (rule round_to_unit [OF wf_binary64 assms])
  moreover have "0 \<le> rnd binary64 x" "rnd binary64 x \<le> 1"
    using rnd_unit_interval [OF wf_binary64 assms] by simp_all
  moreover have "rnd binary64 (rnd binary64 x) = rnd binary64 x"
    by (rule rnd_idem_nonneg [OF wf_binary64 assms(1)])
  ultimately show ?thesis by (simp add: unit_float_def)
qed

section \<open>Properties of the schedule builder\<close>

subsection \<open>Cumulative products\<close>

lemma alpha_unit:
  assumes "valid_beta b"
  shows "unit_float (fsub binary64 (Fin 1) b)"
proof -
  from assms obtain r where b: "b = Fin r" and r: "0 < r" "r < 1"
    by (cases b) (simp_all add: valid_beta_def)
  have "unit_float (round_to binary64 (1 - r))"
    using r by (intro round_unit_float) simp_all
  then show ?thesis using b by simp
qed

lemma alphas_of_valid: "valid_schedule bs \<Longrightarrow> list_all unit_float (one_minus bs)"
  by (auto simp: valid_schedule_def one_minus_def list_all_iff alpha_unit)

lemma mul_unit:
  assumes "unit_float a" and "unit_float x"
  shows "unit_float (fmul binary64 a x)" and "fle (fmul binary64 a x) a"
proof -
  from assms(1) obtain r where a: "a = Fin r" and r: "0 \<le> r" "r \<le> 1" "rnd binary64 r = r"
    by (rule unit_floatE)
  from assms(2) obtain q where x: "x = Fin q" and q: "0 \<le> q" "q \<le> 1"
    by (rule unit_floatE)
  have pos: "0 \<le> r * q" using r q by simp
  have le: "r * q \<le> r" using r q by (simp add: mult_left_le)
  then have le1: "r * q \<le> 1" using r by simp
  have fin: "fmul binary64 a x = Fin (rnd binary64 (r * q))"
    using a x round_to_unit [OF wf_binary64 pos le1] by simp
  show "unit_float (fmul binary64 a x)"
    using a x round_unit_float [OF pos le1] by simp
  have "rnd binary64 (r * q) \<le> rnd binary64 r"
    by (rule rnd_mono_nonneg [OF wf_binary64 pos le])
  then show "fle (fmul binary64 a x) a" using fin a r by simp
qed

lemma fle_trans_unit:
  assumes "fle x y" and "fle y z"
  shows "fle x z"
  using assms by (cases x; cases y; cases z) simp_all

lemma cumprod_from_unit:
  "unit_float acc \<Longrightarrow> list_all unit_float xs \<Longrightarrow>
     list_all (\<lambda>v. unit_float v \<and> fle v acc) (cumprod_from acc xs)"
proof (induction xs arbitrary: acc)
  case Nil
  then show ?case by simp
next
  case (Cons x xs)
  from Cons.prems have x: "unit_float x" and rest: "list_all unit_float xs" by simp_all
  note m = mul_unit [OF Cons.prems(1) x]
  have "list_all (\<lambda>v. unit_float v \<and> fle v (fmul binary64 acc x))
          (cumprod_from (fmul binary64 acc x) xs)"
    using Cons.IH [OF m(1) rest] .
  then have "list_all (\<lambda>v. unit_float v \<and> fle v acc) (cumprod_from (fmul binary64 acc x) xs)"
    using m(2) by (auto simp: list_all_iff intro: fle_trans_unit)
  then show ?case using m by simp
qed

lemma cumprod_from_sorted:
  "unit_float acc \<Longrightarrow> list_all unit_float xs \<Longrightarrow>
     sorted_wrt (\<lambda>a b. fle b a) (cumprod_from acc xs)"
proof (induction xs arbitrary: acc)
  case Nil
  then show ?case by simp
next
  case (Cons x xs)
  from Cons.prems have x: "unit_float x" and rest: "list_all unit_float xs" by simp_all
  note m = mul_unit [OF Cons.prems(1) x]
  have "list_all (\<lambda>v. unit_float v \<and> fle v (fmul binary64 acc x))
          (cumprod_from (fmul binary64 acc x) xs)"
    using cumprod_from_unit [OF m(1) rest] .
  moreover have "sorted_wrt (\<lambda>a b. fle b a) (cumprod_from (fmul binary64 acc x) xs)"
    using Cons.IH [OF m(1) rest] .
  ultimately show ?case by (auto simp: list_all_iff)
qed

lemma length_cumprod_from: "length (cumprod_from acc xs) = length xs"
  by (induction xs arbitrary: acc) simp_all

lemma length_cumprod [simp]: "length (cumprod xs) = length xs"
  by (cases xs) (simp_all add: length_cumprod_from)

lemma length_one_minus [simp]: "length (one_minus bs) = length bs"
  by (simp add: one_minus_def)

lemma cumprod_unit: "list_all unit_float xs \<Longrightarrow> list_all unit_float (cumprod xs)"
proof (cases xs)
  case Nil
  then show ?thesis by simp
next
  case (Cons x ys)
  assume "list_all unit_float xs"
  then have x: "unit_float x" and ys: "list_all unit_float ys" using Cons by simp_all
  then show ?thesis
    using Cons cumprod_from_unit [OF x ys] by (auto simp: list_all_iff)
qed

lemma cumprod_sorted:
  "list_all unit_float xs \<Longrightarrow> sorted_wrt (\<lambda>a b. fle b a) (cumprod xs)"
proof (cases xs)
  case Nil
  then show ?thesis by simp
next
  case (Cons x ys)
  assume "list_all unit_float xs"
  then have x: "unit_float x" and ys: "list_all unit_float ys" using Cons by simp_all
  then show ?thesis
    using Cons cumprod_from_unit [OF x ys] cumprod_from_sorted [OF x ys]
    by (auto simp: list_all_iff)
qed

lemma alpha_cum_unit: "valid_schedule bs \<Longrightarrow> list_all unit_float (cumprod (one_minus bs))"
  by (rule cumprod_unit) (rule alphas_of_valid)

lemma alpha_cum_sorted:
  "valid_schedule bs \<Longrightarrow> sorted_wrt (\<lambda>a b. fle b a) (cumprod (one_minus bs))"
  by (rule cumprod_sorted) (rule alphas_of_valid)

text \<open>
  Claim C7, amended. For a noise schedule of float64 values in (0,1), the cumulative
  product of \<open>1 - beta\<close> is non-increasing and every element is a number in [0,1]:
  the lower bound is not strict, because a product of alphas can round to 0.
\<close>

theorem alpha_cum_monotone_bounded:
  assumes "valid_schedule bs"
  shows "sorted_wrt (\<lambda>a b. fle b a) (cumprod (one_minus bs)) \<and>
         list_all in_unit (cumprod (one_minus bs))"
proof
  show "sorted_wrt (\<lambda>a b. fle b a) (cumprod (one_minus bs))"
    using assms by (rule alpha_cum_sorted)
  show "list_all in_unit (cumprod (one_minus bs))"
    using alpha_cum_unit [OF assms] by (auto simp: list_all_iff unit_float_in_unit)
qed

subsection \<open>Powers of two in float64\<close>

lemma two_powi_div: "(2::real) powi a / 2 powi b = 2 powi (a - b)"
  by (simp add: power_int_diff)

lemma rnd_pow2:
  assumes "- 1074 \<le> k" and "k \<le> 1023"
  shows "rnd binary64 (2 powi k) = 2 powi k"
proof (cases "- 1022 \<le> k")
  case True
  show ?thesis
  proof (rule rnd_exactI [where e = k and m = "2 ^ 52"])
    have "(2::real) powi k / 2 powi (k - int (prec binary64) + 1)
        = 2 powi (k - (k - int (prec binary64) + 1))"
      by (rule two_powi_div)
    also have "k - (k - int (prec binary64) + 1) = 52" by simp
    finally show "(2::real) powi k / 2 powi (k - int (prec binary64) + 1) = of_int (2 ^ 52)"
      by simp
    show "k = emax binary64 \<or> (2::real) powi k < 2 powi (k + 1)"
      by (rule disjI2, rule power_int_strict_increasing) simp_all
  qed (use True assms in simp_all)
next
  case False
  then have nn: "0 \<le> k + 1074" using assms by simp
  show ?thesis
  proof (rule rnd_exactI [where e = "- 1022" and m = "2 ^ nat (k + 1074)"])
    have "(2::real) powi k / 2 powi (- 1022 - int (prec binary64) + 1)
        = 2 powi (k - (- 1022 - int (prec binary64) + 1))"
      by (rule two_powi_div)
    also have "k - (- 1022 - int (prec binary64) + 1) = k + 1074" by simp
    also have "(2::real) powi (k + 1074) = of_int (2 ^ nat (k + 1074))"
      using nn by (rule two_powi_as_int)
    finally show "(2::real) powi k / 2 powi (- 1022 - int (prec binary64) + 1)
        = of_int (2 ^ nat (k + 1074))" .
    have "(2::real) powi k < 2 powi (- 1022 + 1)"
      using False by (intro power_int_strict_increasing) simp_all
    then show "- 1022 = emax binary64 \<or> (2::real) powi k < 2 powi (- 1022 + 1)" by simp
  qed simp_all
qed

lemma rne_small: "0 \<le> z \<Longrightarrow> z < 1 / 2 \<Longrightarrow> rne z = 0"
proof -
  assume z: "0 \<le> z" "z < 1 / 2"
  then have "\<lfloor>z\<rfloor> = 0" by (simp add: floor_eq_iff)
  then show ?thesis using z by (simp add: rne_def)
qed

lemma rnd_tiny:
  assumes "0 \<le> x" and "x < 2 powi (- 1075)"
  shows "rnd binary64 x = 0"
proof -
  have lt: "x < 2 powi (- 1022 + 1)"
  proof -
    have "(2::real) powi (- 1075) \<le> 2 powi (- 1022 + 1)"
      by (intro power_int_increasing) simp_all
    then show ?thesis using assms(2) by simp
  qed
  have "rnd binary64 x =
      of_int (rne (x / 2 powi (- 1022 - int (prec binary64) + 1))) *
        2 powi (- 1022 - int (prec binary64) + 1)"
    by (rule rnd_evalI) (use assms lt in simp_all)
  moreover have "rne (x / 2 powi (- 1022 - int (prec binary64) + 1)) = 0"
  proof (rule rne_small)
    show "0 \<le> x / 2 powi (- 1022 - int (prec binary64) + 1)" using assms(1) by simp
    have e: "- 1022 - int (prec binary64) + 1 = - 1074" by simp
    have "x / 2 powi (- 1074) < 2 powi (- 1075) / 2 powi (- 1074)"
      using assms(2) by (rule divide_strict_right_mono) (rule zero_less_power_int, simp)
    also have "(2::real) powi (- 1075) / 2 powi (- 1074) = 2 powi (- 1075 - (- 1074))"
      by (rule two_powi_div)
    also have "(2::real) powi (- 1075 - (- 1074)) = 1 / 2" by simp
    finally show "x / 2 powi (- 1022 - int (prec binary64) + 1) < 1 / 2"
      unfolding e .
  qed
  ultimately show ?thesis by simp
qed

lemma round_pow2:
  assumes "- 1074 \<le> k" and "k \<le> 0"
  shows "round_to binary64 (2 powi k) = Fin (2 powi k)"
proof -
  have "(2::real) powi k \<le> 2 powi 0" using assms(2) by (intro power_int_increasing) simp_all
  then have "round_to binary64 (2 powi k) = Fin (rnd binary64 (2 powi k))"
    by (intro round_to_unit) simp_all
  then show ?thesis using rnd_pow2 [of k] assms by simp
qed

lemma round_tiny:
  assumes "0 \<le> x" and "x < 2 powi (- 1075)"
  shows "round_to binary64 x = Fin 0"
proof -
  have "(2::real) powi (- 1075) \<le> 2 powi 0" by (intro power_int_increasing) simp_all
  then have "x \<le> 1" using assms(2) by simp
  then have "round_to binary64 x = Fin (rnd binary64 x)"
    using assms(1) by (intro round_to_unit) simp_all
  then show ?thesis using rnd_tiny [OF assms] by simp
qed

subsection \<open>Underflow of a cumulative product\<close>

lemma near_one_valid: "valid_beta (Fin (1 - 2 powi (- 53)))"
proof -
  have "rnd binary64 (1 - 2 powi (- 53)) = 1 - 2 powi (- 53)"
    by (rule rnd_exactI [where e = "- 1" and m = "2 ^ 53 - 1"]) simp_all
  then show ?thesis by (simp add: valid_beta_def)
qed

lemma near_one_alpha: "fsub binary64 (Fin 1) (Fin (1 - 2 powi (- 53))) = Fin (2 powi (- 53))"
  using round_pow2 [of "- 53"] by (simp del: power_int_numeral_neg_numeral)

lemma pow_step:
  assumes "1 \<le> j"
  shows "fmul binary64 (if 53 * j \<le> 1074 then Fin (2 powi (- 53 * int j)) else Fin 0)
           (Fin (2 powi (- 53)))
         = (if 53 * Suc j \<le> 1074 then Fin (2 powi (- 53 * int (Suc j))) else Fin 0)"
proof (cases "53 * j \<le> 1074")
  case False
  then show ?thesis by simp
next
  case True
  have "(2::real) powi (- 53 * int j) * 2 powi (- 53) = 2 powi (- 53 * int j + (- 53))"
    by (rule two_powi_add)
  also have "- 53 * int j + (- 53) = - 53 * int (Suc j)" by simp
  finally have prod: "(2::real) powi (- 53 * int j) * 2 powi (- 53) = 2 powi (- 53 * int (Suc j))" .
  have mul: "fmul binary64 (Fin (2 powi (- 53 * int j))) (Fin (2 powi (- 53)))
      = round_to binary64 (2 powi (- 53 * int (Suc j)))"
    by (simp only: fmul.simps prod)
  show ?thesis
  proof (cases "53 * Suc j \<le> 1074")
    case True
    then have "53 * int (Suc j) \<le> 1074" by linarith
    then have "round_to binary64 (2 powi (- 53 * int (Suc j))) = Fin (2 powi (- 53 * int (Suc j)))"
      by (intro round_pow2) linarith+
    then show ?thesis using True \<open>53 * j \<le> 1074\<close> mul by (simp only: if_True)
  next
    case False
    then have "21 \<le> Suc j" by presburger
    then have "21 \<le> int (Suc j)" by simp
    then have "53 * 21 \<le> 53 * int (Suc j)" by (intro mult_left_mono) simp_all
    then have "- (53 * int (Suc j)) \<le> - 1076" by simp
    then have "- 53 * int (Suc j) \<le> - 1076" by simp
    then have "(2::real) powi (- 53 * int (Suc j)) \<le> 2 powi (- 1076)"
      by (intro power_int_increasing) simp_all
    moreover have "(2::real) powi (- 1076) < 2 powi (- 1075)"
      by (rule power_int_strict_increasing) simp_all
    ultimately have "(2::real) powi (- 53 * int (Suc j)) < 2 powi (- 1075)" by (rule le_less_trans)
    then have "round_to binary64 (2 powi (- 53 * int (Suc j))) = Fin 0"
      by (intro round_tiny) simp_all
    then show ?thesis using False \<open>53 * j \<le> 1074\<close> mul by (simp only: if_True if_False)
  qed
qed

lemma cumprod_from_pow:
  "1 \<le> j \<Longrightarrow>
   cumprod_from (if 53 * j \<le> 1074 then Fin (2 powi (- 53 * int j)) else Fin 0)
     (replicate n (Fin (2 powi (- 53))))
   = map (\<lambda>i. if 53 * i \<le> 1074 then Fin (2 powi (- 53 * int i)) else Fin 0) [Suc j..<Suc j + n]"
proof (induction n arbitrary: j)
  case 0
  then show ?case by simp
next
  case (Suc n)
  have "1 \<le> Suc j" by simp
  note IH = Suc.IH [OF this]
  have "[Suc j..<Suc j + Suc n] = Suc j # [Suc (Suc j)..<Suc (Suc j) + n]"
    by (simp add: upt_rec [of "Suc j"])
  then show ?case
    using pow_step [OF Suc.prems] IH
    by (simp only: replicate_Suc cumprod_from.simps list.map)
qed

lemma underflow_last:
  "last (cumprod (one_minus (replicate 21 (Fin (1 - 2 powi (- 53)))))) = Fin 0"
proof -
  have "one_minus (replicate 21 (Fin (1 - 2 powi (- 53)))) = replicate 21 (Fin (2 powi (- 53)))"
    by (simp only: one_minus_def map_replicate near_one_alpha)
  also have "replicate 21 (Fin ((2::real) powi (- 53)))
      = Fin (2 powi (- 53)) # replicate 20 (Fin (2 powi (- 53)))"
    using replicate_Suc [of 20 "Fin ((2::real) powi (- 53))"] by (simp only: eval_nat_numeral)
  finally have c: "cumprod (one_minus (replicate 21 (Fin (1 - 2 powi (- 53)))))
      = Fin (2 powi (- 53)) # cumprod_from (Fin (2 powi (- 53))) (replicate 20 (Fin (2 powi (- 53))))"
    by (simp only: cumprod.simps)
  have first: "(if 53 * (1::nat) \<le> 1074 then Fin (2 powi (- 53 * int 1)) else Fin 0)
      = Fin (2 powi (- 53))"
    by (simp del: power_int_numeral_neg_numeral)
  have tail: "cumprod_from (Fin (2 powi (- 53))) (replicate 20 (Fin (2 powi (- 53))))
      = map (\<lambda>i. if 53 * i \<le> 1074 then Fin (2 powi (- 53 * int i)) else Fin 0) [Suc 1..<Suc 1 + 20]"
    using cumprod_from_pow [of 1 20] unfolding first by simp
  have "[Suc 1..<Suc 1 + 20] = [2..<21] @ [21]" by (simp add: upt_rec)
  then have "last (map (\<lambda>i. if 53 * i \<le> 1074 then Fin (2 powi (- 53 * int i)) else Fin 0)
      [Suc 1..<Suc 1 + 20]) = Fin 0"
    by (simp only: map_append last_snoc list.map) simp
  then show ?thesis unfolding c tail by (simp add: upt_rec)
qed

text \<open>
  Claim C7 as stated fails. For the schedule of 21 steps with every beta \<open>1 - 2^-53\<close>,
  in (0,1), every alpha is \<open>2^-53\<close>, and the last cumulative product, \<open>2^-1113\<close> in the
  reals, is the float64 0.0, outside (0,1].
\<close>

theorem alpha_cum_underflow:
  "valid_schedule (replicate 21 (Fin (1 - 2 powi (- 53)))) \<and>
   last (cumprod (one_minus (replicate 21 (Fin (1 - 2 powi (- 53)))))) = Fin 0 \<and>
   \<not> list_all (\<lambda>v. flt (Fin 0) v \<and> fle v (Fin 1))
       (cumprod (one_minus (replicate 21 (Fin (1 - 2 powi (- 53))))))"
proof -
  let ?c = "cumprod (one_minus (replicate 21 (Fin (1 - 2 powi (- 53)))))"
  have v: "valid_schedule (replicate 21 (Fin (1 - 2 powi (- 53))))"
    using near_one_valid by (simp add: valid_schedule_def list_all_iff)
  have ne: "?c \<noteq> []" by (simp add: length_0_conv [symmetric] del: length_0_conv)
  then have "last ?c \<in> set ?c" by (rule last_in_set)
  then have mem: "Fin 0 \<in> set ?c" by (simp only: underflow_last)
  have "\<not> (flt (Fin 0) (Fin 0) \<and> fle (Fin 0) (Fin 1))" by simp
  then have "\<not> list_all (\<lambda>v. flt (Fin 0) v \<and> fle v (Fin 1)) ?c"
    unfolding list_all_iff using mem by blast
  then show ?thesis using v underflow_last by (intro conjI)
qed

theorem alpha_cum_monotone_bounded_witness:
  "valid_schedule [Fin (1 / 2), Fin (1 / 4)] \<and>
   sorted_wrt (\<lambda>a b. fle b a) (cumprod (one_minus [Fin (1 / 2), Fin (1 / 4)])) \<and>
   list_all in_unit (cumprod (one_minus [Fin (1 / 2), Fin (1 / 4)]))"
proof -
  have h: "rnd binary64 (1 / 2) = 1 / 2"
    by (rule rnd_exactI [where e = "- 1" and m = "2 ^ 52"]) simp_all
  have q: "rnd binary64 (1 / 4) = 1 / 4"
    by (rule rnd_exactI [where e = "- 2" and m = "2 ^ 52"]) simp_all
  have v: "valid_schedule [Fin (1 / 2), Fin (1 / 4)]"
    using h q by (simp add: valid_schedule_def valid_beta_def)
  show ?thesis using v alpha_cum_monotone_bounded [OF v] by simp
qed

subsection \<open>Representable values\<close>

lemma rnd_exact_ulp:
  assumes "0 \<le> x" and "x / ulp fmt x = of_int m"
  shows "rnd fmt x = x"
proof -
  have "rnd fmt x = of_int m * ulp fmt x" using assms by (simp add: rnd_nonneg_eq)
  also have "\<dots> = x" using assms(2) [symmetric] by simp
  finally show ?thesis .
qed

lemma two_powi_nat: "(2::real) powi (int n) = of_int (2 ^ n)"
  by simp

lemma rnd_scaled_int:
  assumes wf: "wf_format fmt" and m: "0 \<le> m" "m < 2 ^ prec fmt"
    and k: "int k \<le> int (prec fmt) - 1 - emin fmt"
  shows "rnd fmt (of_int m / 2 ^ k) = of_int m / 2 ^ k"
proof -
  let ?x = "of_int m / (2::real) ^ k"
  let ?e = "expo fmt ?x"
  let ?p = "int (prec fmt)"
  have x: "0 \<le> ?x" using m by simp
  have xk: "?x = of_int m * 2 powi (- int k)"
    by (simp add: power_int_minus divide_inverse)
  have le: "?e - ?p + 1 \<le> - int k"
  proof (cases "?e = emin fmt")
    case True
    then show ?thesis using k by simp
  next
    case False
    then have "emin fmt < ?e" using expo_range(1) [OF wf_le [OF wf], of ?x] by simp
    then have "2 powi ?e \<le> ?x" by (rule expo_lower [OF wf_le [OF wf]])
    also have "?x < of_int (2 ^ prec fmt) * 2 powi (- int k)"
      unfolding xk using m by (intro mult_strict_right_mono) simp_all
    also have "of_int (2 ^ prec fmt) * 2 powi (- int k) = (2::real) powi ?p * 2 powi (- int k)"
      by simp
    also have "\<dots> = 2 powi (?p + (- int k))" by (rule two_powi_add)
    finally have lt: "(2::real) powi ?e < 2 powi (?p + (- int k))" .
    have "?e < ?p + (- int k)"
    proof (rule ccontr)
      assume "\<not> ?e < ?p + (- int k)"
      then have "?p + (- int k) \<le> ?e" by simp
      then have "(2::real) powi (?p + (- int k)) \<le> 2 powi ?e"
        by (intro power_int_increasing) simp_all
      with lt show False by simp
    qed
    then show ?thesis by simp
  qed
  then have nn: "0 \<le> - int k - (?e - ?p + 1)" by simp
  have "?x / ulp fmt ?x = of_int m * (2 powi (- int k) / 2 powi (?e - ?p + 1))"
    unfolding xk ulp_def by simp
  also have "2 powi (- int k) / (2::real) powi (?e - ?p + 1) = 2 powi (- int k - (?e - ?p + 1))"
    by (rule two_powi_div)
  also have "\<dots> = of_int (2 ^ nat (- int k - (?e - ?p + 1)))"
    using nn by (rule two_powi_as_int)
  finally have "?x / ulp fmt ?x = of_int (m * 2 ^ nat (- int k - (?e - ?p + 1)))"
    by simp
  with x show ?thesis by (rule rnd_exact_ulp)
qed

lemma rnd_nat:
  assumes wf: "wf_format fmt" and "n < 2 ^ prec fmt"
  shows "rnd fmt (real n) = real n"
proof -
  have k: "int 0 \<le> int (prec fmt) - 1 - emin fmt" using wf by (simp add: wf_format_def)
  have "int n < int (2 ^ prec fmt)" using assms(2) by (simp only: of_nat_less_iff)
  then have m: "int n < 2 ^ prec fmt" by simp
  have "0 \<le> int n" by simp
  then have "rnd fmt (of_int (int n) / 2 ^ 0) = of_int (int n) / 2 ^ 0"
    using m k by (rule rnd_scaled_int [OF wf])
  then show ?thesis by simp
qed

lemma round_nat_fmt:
  assumes wf: "wf_format fmt" and n: "n < 2 ^ prec fmt" and pe: "int (prec fmt) \<le> emax fmt + 1"
  shows "round_to fmt (real n) = Fin (real n)"
proof -
  have r: "rnd fmt (real n) = real n" using wf n by (rule rnd_nat)
  have "real n < real (2 ^ prec fmt)" using n by (simp only: of_nat_less_iff)
  also have "real (2 ^ prec fmt) = 2 powi (int (prec fmt))" by simp
  also have "\<dots> \<le> 2 powi (emax fmt + 1)" using pe by (intro power_int_increasing) simp_all
  finally have "\<bar>real n\<bar> < 2 powi (emax fmt + 1)" by simp
  then have "\<bar>rnd fmt (real n)\<bar> < 2 powi (emax fmt + 1)" by (simp only: r)
  then have "round_to fmt (real n) = Fin (rnd fmt (real n))" by (rule round_to_fin)
  then show ?thesis by (simp only: r)
qed

lemma round_nat64:
  assumes "n < 2 ^ 53"
  shows "round_to binary64 (real n) = Fin (real n)"
  using assms by (intro round_nat_fmt) simp_all

lemma round_nat32:
  assumes "n < 2 ^ 24"
  shows "round_to binary32 (real n) = Fin (real n)"
  using assms by (intro round_nat_fmt) simp_all

lemma representable_multiple:
  assumes wf: "wf_format fmt" and "0 \<le> x" and "rnd fmt x = x"
  shows "\<exists>M. x = of_int M * 2 powi (emin fmt - int (prec fmt) + 1)"
proof -
  let ?e = "expo fmt x"
  let ?q = "(2::real) powi (emin fmt - int (prec fmt) + 1)"
  have nn: "0 \<le> ?e - emin fmt" using expo_range(1) [OF wf_le [OF wf], of x] by simp
  have ex: "(?e - emin fmt) + (emin fmt - int (prec fmt) + 1) = ?e - int (prec fmt) + 1" by simp
  have "2 powi (?e - emin fmt) * ?q = 2 powi ((?e - emin fmt) + (emin fmt - int (prec fmt) + 1))"
    by (rule two_powi_add)
  then have "ulp fmt x = 2 powi (?e - emin fmt) * ?q"
    unfolding ulp_def ex by simp
  also have "(2::real) powi (?e - emin fmt) = of_int (2 ^ nat (?e - emin fmt))"
    using nn by (rule two_powi_as_int)
  finally have u: "ulp fmt x = of_int (2 ^ nat (?e - emin fmt)) * ?q" .
  have "x = of_int (rne (x / ulp fmt x)) * ulp fmt x"
    using assms(2,3) by (simp add: rnd_nonneg_eq)
  then have "x = of_int (rne (x / ulp fmt x) * 2 ^ nat (?e - emin fmt)) * ?q"
    using u by simp
  then show ?thesis by blast
qed

lemma rnd_min_subnormal:
  assumes wf: "wf_format fmt"
  shows "rnd fmt (2 powi (emin fmt - int (prec fmt) + 1)) = 2 powi (emin fmt - int (prec fmt) + 1)"
proof (rule rnd_exactI [OF wf, where e = "emin fmt" and m = 1])
  show "emin fmt \<le> emax fmt" using wf by (simp add: wf_format_def)
  have "emin fmt - int (prec fmt) + 1 < emin fmt + 1" using wf by (simp add: wf_format_def)
  then have "(2::real) powi (emin fmt - int (prec fmt) + 1) < 2 powi (emin fmt + 1)"
    by (intro power_int_strict_increasing) simp_all
  then show "emin fmt = emax fmt \<or> (2::real) powi (emin fmt - int (prec fmt) + 1) < 2 powi (emin fmt + 1)"
    by simp
qed simp_all

lemma rnd_diff_pos:
  assumes wf: "wf_format fmt" and a: "rnd fmt a = a" and b: "rnd fmt b = b"
    and "0 \<le> b" and "b < a"
  shows "0 < rnd fmt (a - b)"
proof -
  let ?q = "(2::real) powi (emin fmt - int (prec fmt) + 1)"
  have q: "0 < ?q" by simp
  from representable_multiple [OF wf _ a] assms obtain M where M: "a = of_int M * ?q" by auto
  from representable_multiple [OF wf _ b] assms obtain N where N: "b = of_int N * ?q" by auto
  have "of_int N * ?q < of_int M * ?q" using assms(5) M N by simp
  then have "(of_int N :: real) < of_int M" using q by (simp only: mult_less_cancel_right_pos)
  then have "N + 1 \<le> M" by simp
  then have "(of_int (N + 1) :: real) \<le> of_int M" by (simp only: of_int_le_iff)
  then have "of_int (N + 1) * ?q \<le> of_int M * ?q" using q by (intro mult_right_mono) simp_all
  then have "?q \<le> a - b" unfolding M N by (simp add: algebra_simps)
  then have "rnd fmt ?q \<le> rnd fmt (a - b)"
    by (intro rnd_mono_nonneg [OF wf]) simp_all
  moreover have "rnd fmt ?q = ?q" by (rule rnd_min_subnormal [OF wf])
  ultimately have "?q \<le> rnd fmt (a - b)" by (simp only:)
  with q show ?thesis by (rule less_le_trans)
qed

lemma rne_eqI:
  assumes "of_int m - 1 / 2 < z" and "z < of_int m + 1 / 2"
  shows "rne z = m"
proof (cases "of_int m \<le> z")
  case True
  then have "\<lfloor>z\<rfloor> = m" using assms(2) by (simp add: floor_eq_iff)
  then show ?thesis using assms(2) by (simp add: rne_def)
next
  case False
  then have "\<lfloor>z\<rfloor> = m - 1" using assms(1) by (simp add: floor_eq_iff)
  then show ?thesis using assms(1) by (simp add: rne_def)
qed

subsection \<open>Exact values\<close>

lemma round_dyadic64:
  assumes "0 \<le> m" and "m < 2 ^ 53" and "k \<le> 1074"
  shows "round_to binary64 (of_int m / 2 ^ k) = Fin (of_int m / 2 ^ k)"
    and "rnd binary64 (of_int m / 2 ^ k) = of_int m / 2 ^ k"
proof -
  let ?x = "of_int m / (2::real) ^ k"
  show r: "rnd binary64 ?x = ?x"
    using assms by (intro rnd_scaled_int) simp_all
  have "?x \<le> of_int m" using assms(1) by (simp add: divide_le_eq mult_le_cancel_left1)
  also have "(of_int m :: real) < of_int (2 ^ 53)" using assms(2) by (simp only: of_int_less_iff)
  also have "(of_int (2 ^ 53) :: real) = 2 powi 53" by simp
  also have "(2::real) powi 53 \<le> 2 powi (emax binary64 + 1)"
    by (intro power_int_increasing) simp_all
  finally have "?x < 2 powi (emax binary64 + 1)" .
  moreover have "0 \<le> ?x" using assms(1) by simp
  ultimately have "\<bar>rnd binary64 ?x\<bar> < 2 powi (emax binary64 + 1)" by (simp only: r abs_of_nonneg)
  then have "round_to binary64 ?x = Fin (rnd binary64 ?x)" by (rule round_to_fin)
  then show "round_to binary64 ?x = Fin ?x" by (simp only: r)
qed

lemma round_dyadic32:
  assumes "0 \<le> m" and "m < 2 ^ 24" and "k \<le> 149"
  shows "round_to binary32 (of_int m / 2 ^ k) = Fin (of_int m / 2 ^ k)"
proof -
  let ?x = "of_int m / (2::real) ^ k"
  have r: "rnd binary32 ?x = ?x"
    using assms by (intro rnd_scaled_int) simp_all
  have "?x \<le> of_int m" using assms(1) by (simp add: divide_le_eq mult_le_cancel_left1)
  also have "(of_int m :: real) < of_int (2 ^ 24)" using assms(2) by (simp only: of_int_less_iff)
  also have "(of_int (2 ^ 24) :: real) = 2 powi 24" by simp
  also have "(2::real) powi 24 \<le> 2 powi (emax binary32 + 1)"
    by (intro power_int_increasing) simp_all
  finally have "?x < 2 powi (emax binary32 + 1)" .
  moreover have "0 \<le> ?x" using assms(1) by simp
  ultimately have "\<bar>rnd binary32 ?x\<bar> < 2 powi (emax binary32 + 1)" by (simp only: r abs_of_nonneg)
  then have "round_to binary32 ?x = Fin (rnd binary32 ?x)" by (rule round_to_fin)
  then show "round_to binary32 ?x = Fin ?x" by (simp only: r)
qed

lemma exact64 [simp]:
  "round_to binary64 (1 / 2) = Fin (1 / 2)"
  "round_to binary64 (1 / 4) = Fin (1 / 4)"
  "round_to binary64 (3 / 4) = Fin (3 / 4)"
  "round_to binary64 (1 / 8) = Fin (1 / 8)"
  "round_to binary64 (3 / 8) = Fin (3 / 8)"
  "round_to binary64 (5 / 8) = Fin (5 / 8)"
  "round_to binary64 (7 / 8) = Fin (7 / 8)"
  "round_to binary64 (1 / 16) = Fin (1 / 16)"
  "round_to binary64 2 = Fin 2"
  using round_dyadic64(1) [of 1 1] round_dyadic64(1) [of 1 2] round_dyadic64(1) [of 3 2]
    round_dyadic64(1) [of 1 3] round_dyadic64(1) [of 3 3] round_dyadic64(1) [of 5 3]
    round_dyadic64(1) [of 7 3] round_dyadic64(1) [of 1 4] round_dyadic64(1) [of 2 0]
  by simp_all

lemma exact_rnd64 [simp]:
  "rnd binary64 (1 / 2) = 1 / 2"
  "rnd binary64 (1 / 4) = 1 / 4"
  "rnd binary64 (3 / 4) = 3 / 4"
  "rnd binary64 (1 / 8) = 1 / 8"
  "rnd binary64 (3 / 8) = 3 / 8"
  "rnd binary64 (5 / 8) = 5 / 8"
  "rnd binary64 (7 / 8) = 7 / 8"
  "rnd binary64 (1 / 16) = 1 / 16"
  using round_dyadic64(2) [of 1 1] round_dyadic64(2) [of 1 2] round_dyadic64(2) [of 3 2]
    round_dyadic64(2) [of 1 3] round_dyadic64(2) [of 3 3] round_dyadic64(2) [of 5 3]
    round_dyadic64(2) [of 7 3] round_dyadic64(2) [of 1 4]
  by simp_all

lemma exact32 [simp]:
  "round_to binary32 (1 / 2) = Fin (1 / 2)"
  "round_to binary32 (1 / 4) = Fin (1 / 4)"
  "round_to binary32 2 = Fin 2"
  using round_dyadic32 [of 1 1] round_dyadic32 [of 1 2] round_dyadic32 [of 2 0]
  by simp_all

subsection \<open>The bracket scan\<close>

lemma append_found_fold:
  "foldl (\<lambda>T a. case h a of None \<Rightarrow> T | Some v \<Rightarrow> T @ [v]) T0 xs = T0 @ List.map_filter h xs"
  by (induction xs arbitrary: T0) (simp_all split: option.splits)

lemma time_warp_map_filter:
  "time_warp tc ac = map (fcast binary32) (List.map_filter (\<lambda>a. bracket_scan tc a 0) ac)"
proof -
  have "foldl (append_found tc ac) [] [0..<length ac]
      = foldl (\<lambda>T a. case bracket_scan tc a 0 of None \<Rightarrow> T | Some v \<Rightarrow> T @ [v]) []
          (map ((!) ac) [0..<length ac])"
    by (simp add: foldl_map append_found_def [abs_def])
  also have "\<dots> = List.map_filter (\<lambda>a. bracket_scan tc a 0) ac"
    by (simp only: map_nth append_found_fold append_Nil)
  finally show ?thesis by (simp add: time_warp_def)
qed

lemma unit_float_refl: "unit_float v \<Longrightarrow> fle v v"
  by (cases v) (simp_all add: unit_float_def)

lemma unit_float_total: "unit_float v \<Longrightarrow> fle l a \<Longrightarrow> fle a h \<Longrightarrow> \<not> fle v a \<Longrightarrow> fle a v"
  by (cases v; cases a; cases l; cases h) (simp_all add: unit_float_def)

lemma bracket_scan_found:
  "list_all unit_float tc \<Longrightarrow> t + 1 < length tc \<Longrightarrow> fle a (tc ! t) \<Longrightarrow> fle (last tc) a \<Longrightarrow>
     bracket_scan tc a t \<noteq> None"
proof (induction tc a t rule: bracket_scan.induct)
  case (1 tc a t)
  show ?case
  proof (cases "fle (tc ! (t + 1)) a")
    case True
    then show ?thesis using "1.prems" by (simp add: bracket_scan.simps [of tc a t])
  next
    case False
    have u: "unit_float (tc ! (t + 1))"
      using "1.prems"(1,2) by (simp add: list_all_length)
    have lt: "fle a (tc ! (t + 1))"
      using unit_float_total [OF u "1.prems"(4) "1.prems"(3) False] .
    have more: "t + 1 + 1 < length tc"
    proof (rule ccontr)
      assume "\<not> t + 1 + 1 < length tc"
      then have "t + 1 = length tc - 1" using "1.prems"(2) by simp
      then have "tc ! (t + 1) = last tc"
        using "1.prems"(2) by (metis last_conv_nth length_0_conv not_less_zero)
      then show False using False "1.prems"(4) by simp
    qed
    have "bracket_scan tc a (t + 1) \<noteq> None"
      using "1.IH" [OF "1.prems"(2) _ "1.prems"(1) more lt "1.prems"(4)] False by simp
    then show ?thesis using False "1.prems"(2) by (simp add: bracket_scan.simps [of tc a t])
  qed
qed

lemma bracket_scan_outside:
  "list_all unit_float tc \<Longrightarrow> sorted_wrt (\<lambda>x y. fle y x) tc \<Longrightarrow> \<not> in_range tc a \<Longrightarrow>
     bracket_scan tc a t = None"
proof (induction tc a t rule: bracket_scan.induct)
  case (1 tc a t)
  show ?case
  proof (cases "t + 1 < length tc")
    case False
    then show ?thesis by (simp add: bracket_scan.simps [of tc a t])
  next
    case True
    then have ne: "tc \<noteq> []" by auto
    have hd_ge: "fle (tc ! t) (hd tc)"
    proof (cases "t = 0")
      case True
      have "unit_float (tc ! 0)" using "1.prems"(1) ne by (simp add: list_all_length)
      then show ?thesis using True ne by (simp add: hd_conv_nth unit_float_refl)
    next
      case False
      then show ?thesis
        using "1.prems"(2) True ne by (simp add: sorted_wrt_iff_nth_less hd_conv_nth)
    qed
    have last_le: "fle (last tc) (tc ! (t + 1))"
    proof (cases "t + 1 = length tc - 1")
      case eq: True
      have "unit_float (tc ! (t + 1))" using "1.prems"(1) True by (simp add: list_all_length)
      then show ?thesis using eq ne by (simp add: last_conv_nth unit_float_refl)
    next
      case False
      then have "t + 1 < length tc - 1" using True by simp
      then show ?thesis
        using "1.prems"(2) ne by (simp add: sorted_wrt_iff_nth_less last_conv_nth)
    qed
    have nb: "\<not> (fle (tc ! (t + 1)) a \<and> fle a (tc ! t))"
    proof
      assume b: "fle (tc ! (t + 1)) a \<and> fle a (tc ! t)"
      have "fle (last tc) a" using last_le b by (blast intro: fle_trans_unit)
      moreover have "fle a (hd tc)" using hd_ge b by (blast intro: fle_trans_unit)
      ultimately show False using "1.prems"(3) ne by (simp add: in_range_def)
    qed
    have "bracket_scan tc a (t + 1) = None"
      using "1.IH" [OF True nb "1.prems"] .
    then show ?thesis using nb True by (simp add: bracket_scan.simps [of tc a t])
  qed
qed

lemma length_map_filter_all:
  "list_all (\<lambda>a. h a \<noteq> None) xs \<Longrightarrow> length (List.map_filter h xs) = length xs"
  by (induction xs) (auto split: option.splits)

lemma length_map_filter_le: "length (List.map_filter h xs) \<le> length xs"
  by (induction xs) (auto split: option.splits)

lemma length_map_filter_less:
  "\<not> list_all (\<lambda>a. h a \<noteq> None) xs \<Longrightarrow> length (List.map_filter h xs) < length xs"
proof (induction xs)
  case Nil
  then show ?case by simp
next
  case (Cons x xs)
  show ?case
  proof (cases "h x")
    case None
    then show ?thesis
      using length_map_filter_le [of h xs] by simp
  next
    case (Some v)
    then show ?thesis using Cons by simp
  qed
qed

lemma bracket_scan_iff:
  assumes "list_all unit_float tc" and "sorted_wrt (\<lambda>x y. fle y x) tc" and "0 + 1 < length tc"
  shows "bracket_scan tc a 0 \<noteq> None \<longleftrightarrow> in_range tc a"
proof
  assume "bracket_scan tc a 0 \<noteq> None"
  then show "in_range tc a"
    by (rule contrapos_np) (rule bracket_scan_outside [OF assms(1,2)])
next
  have ne: "tc \<noteq> []" using assms(3) by auto
  assume "in_range tc a"
  then have "fle a (tc ! 0)" "fle (last tc) a"
    using ne by (simp_all add: in_range_def hd_conv_nth)
  then show "bracket_scan tc a 0 \<noteq> None"
    using bracket_scan_found [OF assms(1) assms(3)] by blast
qed

subsection \<open>Length of the time warp\<close>

text \<open>
  Claim C2, amended. For a training schedule of at least two steps and an inference
  schedule, both with values in (0,1): when every cumulative alpha of the inference
  schedule lies between the last and the first cumulative alpha of the training
  schedule, \<open>T\<close> has the length of the inference schedule; when some value lies outside,
  its step is left out and \<open>T\<close> is shorter.
\<close>

theorem time_warp_length:
  assumes "valid_schedule training" and "valid_schedule inference" and "2 \<le> length training"
  shows "(list_all (in_range (cumprod (one_minus training))) (cumprod (one_minus inference)) \<longrightarrow>
            length (schedule_builder training inference) = length inference) \<and>
         (\<not> list_all (in_range (cumprod (one_minus training))) (cumprod (one_minus inference)) \<longrightarrow>
            length (schedule_builder training inference) < length inference) \<and>
         length (schedule_builder training inference) =
           length (filter (in_range (cumprod (one_minus training))) (cumprod (one_minus inference)))"
proof -
  let ?tc = "cumprod (one_minus training)"
  let ?ac = "cumprod (one_minus inference)"
  have T: "length (schedule_builder training inference) =
      length (List.map_filter (\<lambda>a. bracket_scan ?tc a 0) ?ac)"
    by (simp add: schedule_builder_def time_warp_map_filter)
  have len_ac: "length ?ac = length inference" by simp
  have len_tc: "0 + 1 < length ?tc" using assms(3) by simp
  have same: "(\<lambda>a. bracket_scan ?tc a 0 \<noteq> None) = in_range ?tc"
    by (intro ext bracket_scan_iff alpha_cum_unit alpha_cum_sorted assms(1) len_tc)
  have all_iff: "list_all (\<lambda>a. bracket_scan ?tc a 0 \<noteq> None) ?ac \<longleftrightarrow> list_all (in_range ?tc) ?ac"
    by (simp only: same)
  show ?thesis
  proof (intro conjI impI)
    assume "list_all (in_range ?tc) ?ac"
    then have "list_all (\<lambda>a. bracket_scan ?tc a 0 \<noteq> None) ?ac"
      using all_iff by blast
    then show "length (schedule_builder training inference) = length inference"
      unfolding T using len_ac by (simp add: length_map_filter_all)
  next
    assume "\<not> list_all (in_range ?tc) ?ac"
    then have "\<not> list_all (\<lambda>a. bracket_scan ?tc a 0 \<noteq> None) ?ac"
      using all_iff by blast
    then show "length (schedule_builder training inference) < length inference"
      unfolding T using len_ac length_map_filter_less [of "\<lambda>a. bracket_scan ?tc a 0" ?ac] by simp
  next
    have "length (List.map_filter (\<lambda>a. bracket_scan ?tc a 0) ?ac) =
        length (filter (\<lambda>a. bracket_scan ?tc a 0 \<noteq> None) ?ac)"
      by (simp add: List.map_filter_def)
    then show "length (schedule_builder training inference) = length (filter (in_range ?tc) ?ac)"
      unfolding T by (simp only: same)
  qed
qed

lemma small_schedules:
  "valid_schedule [Fin (1 / 2), Fin (1 / 2)]" "valid_schedule [Fin (1 / 2)]"
  "valid_schedule [Fin (7 / 8)]"
  by (simp_all add: valid_schedule_def valid_beta_def)

lemma small_cumprods:
  "cumprod (one_minus [Fin (1 / 2), Fin (1 / 2)]) = [Fin (1 / 2), Fin (1 / 4)]"
  "cumprod (one_minus [Fin (1 / 2)]) = [Fin (1 / 2)]"
  "cumprod (one_minus [Fin (7 / 8)]) = [Fin (1 / 8)]"
  by (simp_all add: one_minus_def)

theorem time_warp_length_witness:
  "valid_schedule [Fin (1 / 2), Fin (1 / 2)] \<and> valid_schedule [Fin (1 / 2)] \<and>
   valid_schedule [Fin (7 / 8)] \<and>
   2 \<le> length [Fin (1 / 2), Fin (1 / 2)] \<and>
   list_all (in_range (cumprod (one_minus [Fin (1 / 2), Fin (1 / 2)])))
     (cumprod (one_minus [Fin (1 / 2)])) \<and>
   length (schedule_builder [Fin (1 / 2), Fin (1 / 2)] [Fin (1 / 2)]) = length [Fin (1 / 2)] \<and>
   \<not> list_all (in_range (cumprod (one_minus [Fin (1 / 2), Fin (1 / 2)])))
     (cumprod (one_minus [Fin (7 / 8)])) \<and>
   length (schedule_builder [Fin (1 / 2), Fin (1 / 2)] [Fin (7 / 8)]) < length [Fin (7 / 8)] \<and>
   length (schedule_builder [Fin (1 / 2), Fin (1 / 2)] [Fin (7 / 8)]) =
     length (filter (in_range (cumprod (one_minus [Fin (1 / 2), Fin (1 / 2)])))
       (cumprod (one_minus [Fin (7 / 8)])))"
proof -
  note v = small_schedules
  have l: "2 \<le> length [Fin (1 / 2), Fin (1 / 2)]" by simp
  have inside: "list_all (in_range (cumprod (one_minus [Fin (1 / 2), Fin (1 / 2)])))
      (cumprod (one_minus [Fin (1 / 2)]))"
    by (simp add: small_cumprods in_range_def)
  have outside: "\<not> list_all (in_range (cumprod (one_minus [Fin (1 / 2), Fin (1 / 2)])))
      (cumprod (one_minus [Fin (7 / 8)]))"
    by (simp add: small_cumprods in_range_def)
  show ?thesis
    using v l inside outside time_warp_length [OF v(1) v(2) l] time_warp_length [OF v(1) v(3) l]
    by blast
qed

text \<open>
  Claim C2 as stated fails for a training schedule of one step: the scan over
  \<open>range(len(training_noise_schedule) - 1)\<close> has no iteration, so no bracket is found
  although the cumulative alpha of the inference schedule equals that of the training
  schedule.
\<close>

theorem time_warp_length_single_step:
  "valid_schedule [Fin (1 / 2)] \<and>
   list_all (in_range (cumprod (one_minus [Fin (1 / 2)]))) (cumprod (one_minus [Fin (1 / 2)])) \<and>
   length (schedule_builder [Fin (1 / 2)] [Fin (1 / 2)]) = 0 \<and>
   length (schedule_builder [Fin (1 / 2)] [Fin (1 / 2)]) \<noteq> length [Fin (1 / 2)]"
  by (simp add: small_schedules small_cumprods in_range_def schedule_builder_def time_warp_def
      append_found_def bracket_scan.simps)

subsection \<open>Square roots and the interpolation weight\<close>

lemma sq_unit:
  assumes "0 \<le> r" and "r \<le> 1"
  shows "pow_half binary64 (Fin r) = Fin (rnd binary64 (sqrt r))"
    and "0 \<le> rnd binary64 (sqrt r)"
    and "rnd binary64 (sqrt r) \<le> 1"
    and "rnd binary64 (rnd binary64 (sqrt r)) = rnd binary64 (sqrt r)"
proof -
  have s: "0 \<le> sqrt r" "sqrt r \<le> 1" using assms by simp_all
  show "pow_half binary64 (Fin r) = Fin (rnd binary64 (sqrt r))"
    using assms(1) round_to_unit [OF wf_binary64 s] by simp
  show "0 \<le> rnd binary64 (sqrt r)" "rnd binary64 (sqrt r) \<le> 1"
    using rnd_unit_interval [OF wf_binary64 s] by simp_all
  show "rnd binary64 (rnd binary64 (sqrt r)) = rnd binary64 (sqrt r)"
    using s(1) by (intro rnd_idem_nonneg) simp_all
qed

lemma sq_mono:
  assumes "0 \<le> r" and "r \<le> r'"
  shows "rnd binary64 (sqrt r) \<le> rnd binary64 (sqrt r')"
  using assms by (intro rnd_mono_nonneg) simp_all

lemma twiddle_value:
  assumes "0 \<le> l" and "l \<le> a" and "a \<le> h" and "h \<le> 1"
    and ne: "pow_half binary64 (Fin h) \<noteq> pow_half binary64 (Fin l)"
  shows "twiddle (Fin h) (Fin a) (Fin l) =
           Fin (rnd binary64 (rnd binary64 (rnd binary64 (sqrt h) - rnd binary64 (sqrt a)) /
                              rnd binary64 (rnd binary64 (sqrt h) - rnd binary64 (sqrt l))))"
    and "0 < rnd binary64 (rnd binary64 (sqrt h) - rnd binary64 (sqrt l))"
    and "0 \<le> rnd binary64 (rnd binary64 (sqrt h) - rnd binary64 (sqrt a))"
    and "rnd binary64 (rnd binary64 (sqrt h) - rnd binary64 (sqrt a)) \<le>
         rnd binary64 (rnd binary64 (sqrt h) - rnd binary64 (sqrt l))"
proof -
  let ?sh = "rnd binary64 (sqrt h)"
  let ?sa = "rnd binary64 (sqrt a)"
  let ?sl = "rnd binary64 (sqrt l)"
  let ?N = "rnd binary64 (?sh - ?sa)"
  let ?D = "rnd binary64 (?sh - ?sl)"
  have h: "0 \<le> h" "h \<le> 1" and a: "0 \<le> a" "a \<le> 1" and l: "0 \<le> l" "l \<le> 1"
    using assms by simp_all
  note H = sq_unit [OF h] and A = sq_unit [OF a] and L = sq_unit [OF l]
  have la: "?sl \<le> ?sa" using assms by (intro sq_mono) simp_all
  have ah: "?sa \<le> ?sh" using assms a by (intro sq_mono) simp_all
  have "Fin ?sh \<noteq> Fin ?sl" using ne unfolding H(1) L(1) .
  then have "?sh \<noteq> ?sl" by simp
  then have lh: "?sl < ?sh" using la ah by simp
  show D: "0 < ?D" using wf_binary64 H(4) L(4) L(2) lh by (rule rnd_diff_pos)
  have n01: "0 \<le> ?sh - ?sa" "?sh - ?sa \<le> 1" using ah A(2) H(3) by simp_all
  have d01: "0 \<le> ?sh - ?sl" "?sh - ?sl \<le> 1" using lh L(2) H(3) by simp_all
  show N0: "0 \<le> ?N" using n01(1) by (rule rnd_nonneg)
  show ND: "?N \<le> ?D" using la n01(1) by (intro rnd_mono_nonneg) simp_all
  have num: "fsub binary64 (Fin ?sh) (Fin ?sa) = Fin ?N"
    using round_to_unit [OF wf_binary64 n01] by simp
  have den: "fsub binary64 (Fin ?sh) (Fin ?sl) = Fin ?D"
    using round_to_unit [OF wf_binary64 d01] by simp
  have q: "0 \<le> ?N / ?D" "?N / ?D \<le> 1" using N0 ND D by simp_all
  have "fdiv binary64 (Fin ?N) (Fin ?D) = round_to binary64 (?N / ?D)" using D by simp
  also have "\<dots> = Fin (rnd binary64 (?N / ?D))" using wf_binary64 q by (rule round_to_unit)
  finally show "twiddle (Fin h) (Fin a) (Fin l) = Fin (rnd binary64 (?N / ?D))"
    unfolding twiddle_def by (simp only: H(1) A(1) L(1) num den)
qed

lemma twiddle_unit:
  assumes "0 \<le> l" and "l \<le> a" and "a \<le> h" and "h \<le> 1"
    and ne: "pow_half binary64 (Fin h) \<noteq> pow_half binary64 (Fin l)"
  obtains w where "twiddle (Fin h) (Fin a) (Fin l) = Fin w" and "0 \<le> w" and "w \<le> 1"
proof -
  note tv = twiddle_value [OF assms]
  let ?N = "rnd binary64 (rnd binary64 (sqrt h) - rnd binary64 (sqrt a))"
  let ?D = "rnd binary64 (rnd binary64 (sqrt h) - rnd binary64 (sqrt l))"
  have q: "0 \<le> ?N / ?D" "?N / ?D \<le> 1" using tv(2,3,4) by simp_all
  show ?thesis
    using that [OF tv(1)] rnd_unit_interval [OF wf_binary64 q] by simp
qed

lemma twiddle_top:
  assumes "0 \<le> l" and "l \<le> h" and "h \<le> 1"
    and ne: "pow_half binary64 (Fin h) \<noteq> pow_half binary64 (Fin l)"
  shows "twiddle (Fin h) (Fin h) (Fin l) = Fin 0"
  using twiddle_value(1) [OF assms(1,2) order_refl assms(3) ne] by simp

lemma twiddle_bottom:
  assumes "0 \<le> l" and "l \<le> h" and "h \<le> 1"
    and ne: "pow_half binary64 (Fin h) \<noteq> pow_half binary64 (Fin l)"
  shows "twiddle (Fin h) (Fin l) (Fin l) = Fin 1"
  using twiddle_value(1,2) [OF assms(1) order_refl assms(2,3) ne] by simp

lemma twiddle_antitone:
  assumes "0 \<le> l" and "l \<le> a'" and "a' \<le> a" and "a \<le> h" and "h \<le> 1"
    and ne: "pow_half binary64 (Fin h) \<noteq> pow_half binary64 (Fin l)"
    and w: "twiddle (Fin h) (Fin a) (Fin l) = Fin w"
    and w': "twiddle (Fin h) (Fin a') (Fin l) = Fin w'"
  shows "w \<le> w'"
proof -
  let ?sh = "rnd binary64 (sqrt h)"
  let ?D = "rnd binary64 (?sh - rnd binary64 (sqrt l))"
  let ?N = "rnd binary64 (?sh - rnd binary64 (sqrt a))"
  let ?N' = "rnd binary64 (?sh - rnd binary64 (sqrt a'))"
  have la: "l \<le> a" and ah': "a' \<le> h" using assms by simp_all
  note tv = twiddle_value [OF assms(1) la assms(4,5) ne]
  note tv' = twiddle_value [OF assms(1,2) ah' assms(5) ne]
  have a0: "0 \<le> a'" "0 \<le> a" using assms by simp_all
  have "rnd binary64 (sqrt a') \<le> rnd binary64 (sqrt a)" using a0(1) assms(3) by (rule sq_mono)
  moreover have "rnd binary64 (sqrt a) \<le> ?sh" using a0(2) assms(4) by (rule sq_mono)
  ultimately have "?N \<le> ?N'" by (intro rnd_mono_nonneg) simp_all
  then have "?N / ?D \<le> ?N' / ?D" using tv(2) by (simp add: divide_right_mono)
  moreover have "0 \<le> ?N / ?D" using tv(2,3) by simp
  ultimately have "rnd binary64 (?N / ?D) \<le> rnd binary64 (?N' / ?D)"
    by (intro rnd_mono_nonneg) simp_all
  then show ?thesis using tv(1) tv'(1) w w' by simp
qed

subsection \<open>Entries of the time warp\<close>

lemma rnd64_two53: "rnd binary64 (2 ^ 53) = 2 ^ 53"
  using rnd_pow2 [of 53] by simp

lemma rnd32_two53: "rnd binary32 (2 ^ 53) = 2 ^ 53"
  by (rule rnd_exactI [where e = 53 and m = "2 ^ 23"]) simp_all

lemma entry_value:
  assumes "t < 2 ^ 53" and "0 \<le> w" and "w \<le> 1"
  shows "fcast binary32 (fadd binary64 (fnat t) (Fin w)) =
           Fin (rnd binary32 (rnd binary64 (real t + w)))"
proof -
  let ?v = "rnd binary64 (real t + w)"
  have "Suc t \<le> 2 ^ 53" using assms(1) by simp
  then have "real (Suc t) \<le> real (2 ^ 53)" by (simp only: of_nat_le_iff)
  then have le: "real t + w \<le> 2 ^ 53" using assms(3) by simp
  have nn: "0 \<le> real t + w" using assms(2) by simp
  have v0: "0 \<le> ?v" using nn by (rule rnd_nonneg)
  have "?v \<le> rnd binary64 (2 ^ 53)" using nn le by (intro rnd_mono_nonneg) simp_all
  then have v1: "?v \<le> 2 ^ 53" by (simp only: rnd64_two53)
  have big64: "(2::real) ^ 53 < 2 powi (emax binary64 + 1)"
  proof -
    have "(2::real) powi 53 < 2 powi (emax binary64 + 1)"
      by (intro power_int_strict_increasing) simp_all
    then show ?thesis by simp
  qed
  have big32: "(2::real) ^ 53 < 2 powi (emax binary32 + 1)"
  proof -
    have "(2::real) powi 53 < 2 powi (emax binary32 + 1)"
      by (intro power_int_strict_increasing) simp_all
    then show ?thesis by simp
  qed
  have "\<bar>?v\<bar> < 2 powi (emax binary64 + 1)" using v0 v1 big64 by simp
  then have r64: "round_to binary64 (real t + w) = Fin ?v" by (rule round_to_fin)
  have u0: "0 \<le> rnd binary32 ?v" using v0 by (rule rnd_nonneg)
  have "rnd binary32 ?v \<le> rnd binary32 (2 ^ 53)" using v0 v1 by (intro rnd_mono_nonneg) simp_all
  then have "rnd binary32 ?v \<le> 2 ^ 53" by (simp only: rnd32_two53)
  then have "\<bar>rnd binary32 ?v\<bar> < 2 powi (emax binary32 + 1)" using u0 big32 by simp
  then have r32: "round_to binary32 ?v = Fin (rnd binary32 ?v)" by (rule round_to_fin)
  have "fnat t = Fin (real t)" unfolding fnat_def using assms(1) by (rule round_nat64)
  then show ?thesis by (simp add: r64 r32)
qed

lemma entry_mono:
  assumes "0 \<le> x" and "x \<le> y"
  shows "rnd binary32 (rnd binary64 x) \<le> rnd binary32 (rnd binary64 y)"
proof -
  have le: "rnd binary64 x \<le> rnd binary64 y" using assms by (intro rnd_mono_nonneg) simp_all
  have nn: "0 \<le> rnd binary64 x" using assms(1) by (rule rnd_nonneg)
  from wf_binary32 nn le show ?thesis by (rule rnd_mono_nonneg)
qed

lemma bracket_scan_first:
  "bracket_scan tc a t0 = Some v \<Longrightarrow>
     \<exists>t. t0 \<le> t \<and> t + 1 < length tc \<and> fle (tc ! (t + 1)) a \<and> fle a (tc ! t) \<and>
         v = fadd binary64 (fnat t) (twiddle (tc ! t) a (tc ! (t + 1))) \<and>
         (\<forall>u. t0 \<le> u \<and> u < t \<longrightarrow> \<not> (fle (tc ! (u + 1)) a \<and> fle a (tc ! u)))"
proof (induction tc a t0 rule: bracket_scan.induct)
  case (1 tc a t0)
  show ?case
  proof (cases "t0 + 1 < length tc")
    case False
    then show ?thesis using "1.prems" by (simp add: bracket_scan.simps [of tc a t0])
  next
    case True
    show ?thesis
    proof (cases "fle (tc ! (t0 + 1)) a \<and> fle a (tc ! t0)")
      case hit: True
      then have "v = fadd binary64 (fnat t0) (twiddle (tc ! t0) a (tc ! (t0 + 1)))"
        using "1.prems" True by (simp add: bracket_scan.simps [of tc a t0])
      then show ?thesis using True hit by (intro exI [of _ t0]) auto
    next
      case miss: False
      have "bracket_scan tc a t0 = bracket_scan tc a (t0 + 1)"
        using True miss by (subst bracket_scan.simps) auto
      then have "bracket_scan tc a (t0 + 1) = Some v"
        using "1.prems" by simp
      from "1.IH" [OF True miss this] obtain t where t:
        "t0 + 1 \<le> t" "t + 1 < length tc" "fle (tc ! (t + 1)) a" "fle a (tc ! t)"
        "v = fadd binary64 (fnat t) (twiddle (tc ! t) a (tc ! (t + 1)))"
        "\<forall>u. t0 + 1 \<le> u \<and> u < t \<longrightarrow> \<not> (fle (tc ! (u + 1)) a \<and> fle a (tc ! u))"
        by blast
      have "\<forall>u. t0 \<le> u \<and> u < t \<longrightarrow> \<not> (fle (tc ! (u + 1)) a \<and> fle a (tc ! u))"
      proof (intro allI impI)
        fix u assume u: "t0 \<le> u \<and> u < t"
        show "\<not> (fle (tc ! (u + 1)) a \<and> fle a (tc ! u))"
        proof (cases "u = t0")
          case True
          then show ?thesis using miss by simp
        next
          case False
          then have "t0 + 1 \<le> u \<and> u < t" using u by simp
          then show ?thesis using t(6) by blast
        qed
      qed
      then show ?thesis using t by (intro exI [of _ t]) simp
    qed
  qed
qed

lemma distinct_roots_nth:
  assumes "distinct_roots tc" and "k + 1 < length tc"
  shows "pow_half binary64 (tc ! k) \<noteq> pow_half binary64 (tc ! (k + 1))"
proof -
  have "k < length (zip tc (tl tc))" using assms(2) by simp
  moreover have "zip tc (tl tc) ! k = (tc ! k, tc ! (k + 1))"
    using assms(2) by (simp add: nth_tl)
  ultimately show ?thesis
    using assms(1) unfolding distinct_roots_def list_all_length by fastforce
qed

lemma nonincreasing_nth:
  assumes "list_all unit_float tc" and "sorted_wrt (\<lambda>x y. fle y x) tc"
    and "i \<le> j" and "j < length tc"
  shows "fle (tc ! j) (tc ! i)"
proof (cases "i = j")
  case True
  have "unit_float (tc ! j)" using assms(1,4) by (simp add: list_all_length)
  then show ?thesis using True by (simp add: unit_float_refl)
next
  case False
  then show ?thesis using assms(2,3,4) by (simp add: sorted_wrt_iff_nth_less)
qed

lemma bracket_entry:
  assumes u: "list_all unit_float tc" and s: "sorted_wrt (\<lambda>x y. fle y x) tc"
    and d: "distinct_roots tc" and len: "length tc \<le> 2 ^ 53"
    and t: "t + 1 < length tc" and lo: "fle (tc ! (t + 1)) (Fin a)" and hi: "fle (Fin a) (tc ! t)"
  obtains w where "twiddle (tc ! t) (Fin a) (tc ! (t + 1)) = Fin w" and "0 \<le> w" and "w \<le> 1"
    and "fcast binary32 (fadd binary64 (fnat t) (twiddle (tc ! t) (Fin a) (tc ! (t + 1)))) =
           Fin (rnd binary32 (rnd binary64 (real t + w)))"
proof -
  have "unit_float (tc ! t)" using u t by (simp add: list_all_length)
  then obtain h where h: "tc ! t = Fin h" "0 \<le> h" "h \<le> 1" by (rule unit_floatE)
  have "unit_float (tc ! (t + 1))" using u t by (simp add: list_all_length)
  then obtain l where l: "tc ! (t + 1) = Fin l" "0 \<le> l" "l \<le> 1" by (rule unit_floatE)
  have la: "l \<le> a" and ah: "a \<le> h" using lo hi h(1) l(1) by simp_all
  have ne: "pow_half binary64 (Fin h) \<noteq> pow_half binary64 (Fin l)"
    using distinct_roots_nth [OF d t] h(1) l(1) by simp
  obtain w where w: "twiddle (Fin h) (Fin a) (Fin l) = Fin w" "0 \<le> w" "w \<le> 1"
    using twiddle_unit [OF l(2) la ah h(3) ne] by blast
  have t53: "t < 2 ^ 53" using t len by simp
  show ?thesis
    using that [of w] w entry_value [OF t53 w(2,3)] h(1) l(1) by simp
qed

subsection \<open>Equal schedules\<close>

lemma flt_not_fle: "flt x y \<Longrightarrow> \<not> fle y x"
  by (cases x; cases y) simp_all

lemma fle_flt_trans: "fle x y \<Longrightarrow> flt y z \<Longrightarrow> flt x z"
  by (cases x; cases y; cases z) simp_all

lemma strict_step:
  assumes u: "list_all unit_float tc" and s: "sorted_wrt (\<lambda>x y. fle y x) tc"
    and d: "distinct_roots tc" and k: "k + 1 < length tc"
  shows "flt (tc ! (k + 1)) (tc ! k)"
proof -
  have le: "fle (tc ! (k + 1)) (tc ! k)"
    using nonincreasing_nth [OF u s, of k "k + 1"] k by simp
  have ne: "tc ! (k + 1) \<noteq> tc ! k"
    using distinct_roots_nth [OF d k] by auto
  have "unit_float (tc ! k)" using u k by (simp add: list_all_length)
  then obtain h where h: "tc ! k = Fin h" by (rule unit_floatE)
  have "unit_float (tc ! (k + 1))" using u k by (simp add: list_all_length)
  then obtain l where l: "tc ! (k + 1) = Fin l" by (rule unit_floatE)
  show ?thesis using le ne unfolding h l by simp
qed

lemma strict_nth:
  assumes u: "list_all unit_float tc" and s: "sorted_wrt (\<lambda>x y. fle y x) tc"
    and d: "distinct_roots tc" and "i < j" and "j < length tc"
  shows "flt (tc ! j) (tc ! i)"
proof -
  have "fle (tc ! j) (tc ! (i + 1))"
    using nonincreasing_nth [OF u s, of "i + 1" j] assms(4,5) by simp
  moreover have "flt (tc ! (i + 1)) (tc ! i)"
    using strict_step [OF u s d, of i] assms(4,5) by simp
  ultimately show ?thesis by (rule fle_flt_trans)
qed

lemma fnat_exact: "t < 2 ^ 53 \<Longrightarrow> fnat t = Fin (real t)"
  unfolding fnat_def by (rule round_nat64)

lemma bracket_scan_own_below:
  assumes u: "list_all unit_float tc" and s: "sorted_wrt (\<lambda>x y. fle y x) tc"
    and d: "distinct_roots tc" and len: "length tc \<le> 2 ^ 53" and k: "Suc k < length tc"
  shows "t \<le> k \<Longrightarrow> bracket_scan tc (tc ! Suc k) t = Some (Fin (real (Suc k)))"
proof (induction "k - t" arbitrary: t)
  case 0
  then have t: "t = k" by simp
  have k1: "k + 1 < length tc" using k by simp
  have "unit_float (tc ! k)" using u k by (simp add: list_all_length)
  then obtain h where h: "tc ! k = Fin h" "0 \<le> h" "h \<le> 1" by (rule unit_floatE)
  have ul: "unit_float (tc ! (k + 1))" using u k by (simp add: list_all_length)
  then obtain l where l: "tc ! (k + 1) = Fin l" "0 \<le> l" "l \<le> 1" by (rule unit_floatE)
  have le: "fle (tc ! (k + 1)) (tc ! k)"
    using nonincreasing_nth [OF u s, of k "k + 1"] k by simp
  then have lh: "l \<le> h" unfolding h l by simp
  have ne: "pow_half binary64 (Fin h) \<noteq> pow_half binary64 (Fin l)"
    using distinct_roots_nth [OF d k1] h(1) l(1) by simp
  have tw: "twiddle (tc ! k) (tc ! (k + 1)) (tc ! (k + 1)) = Fin 1"
    unfolding h l using l(2) lh h(3) ne by (rule twiddle_bottom)
  have k53: "k < 2 ^ 53" "Suc k < 2 ^ 53" using k len by simp_all
  have "fadd binary64 (fnat k) (Fin 1) = round_to binary64 (real (Suc k))"
    using fnat_exact [OF k53(1)] by (simp add: add.commute)
  also have "\<dots> = Fin (real (Suc k))" using k53(2) by (rule round_nat64)
  finally have v: "fadd binary64 (fnat k) (Fin 1) = Fin (real (Suc k))" .
  have "bracket_scan tc (tc ! Suc k) k
      = Some (fadd binary64 (fnat k) (twiddle (tc ! k) (tc ! (k + 1)) (tc ! (k + 1))))"
    using k le unit_float_refl [OF ul] by (subst bracket_scan.simps) auto
  then show ?case using t tw v by simp
next
  case (Suc n)
  then have lt: "t < k" by simp
  have "flt (tc ! Suc k) (tc ! (t + 1))"
    using strict_nth [OF u s d, of "t + 1" "Suc k"] k lt by simp
  then have "\<not> fle (tc ! (t + 1)) (tc ! Suc k)" by (rule flt_not_fle)
  then have "bracket_scan tc (tc ! Suc k) t = bracket_scan tc (tc ! Suc k) (t + 1)"
    using k lt by (subst bracket_scan.simps) auto
  moreover have "bracket_scan tc (tc ! Suc k) (t + 1) = Some (Fin (real (Suc k)))"
    using Suc.hyps(1) [of "t + 1"] Suc.hyps(2) lt by simp
  ultimately show ?case by simp
qed

lemma bracket_scan_own:
  assumes u: "list_all unit_float tc" and s: "sorted_wrt (\<lambda>x y. fle y x) tc"
    and d: "distinct_roots tc" and len: "length tc \<le> 2 ^ 53"
    and two: "2 \<le> length tc" and i: "i < length tc"
  shows "bracket_scan tc (tc ! i) 0 = Some (Fin (real i))"
proof (cases i)
  case 0
  have k1: "0 + 1 < length tc" using two by simp
  have "0 < length tc" using two by linarith
  then have uh: "unit_float (tc ! 0)" using u by (simp add: list_all_length)
  then obtain h where h: "tc ! 0 = Fin h" "0 \<le> h" "h \<le> 1" by (rule unit_floatE)
  have "unit_float (tc ! (0 + 1))" using u two by (simp add: list_all_length)
  then obtain l where l: "tc ! (0 + 1) = Fin l" "0 \<le> l" "l \<le> 1" by (rule unit_floatE)
  have le: "fle (tc ! (0 + 1)) (tc ! 0)"
    using nonincreasing_nth [OF u s, of 0 "0 + 1"] two by simp
  then have lh: "l \<le> h" unfolding h l by simp
  have ne: "pow_half binary64 (Fin h) \<noteq> pow_half binary64 (Fin l)"
    using distinct_roots_nth [OF d k1] h(1) l(1) by simp
  have tw: "twiddle (tc ! 0) (tc ! 0) (tc ! (0 + 1)) = Fin 0"
    unfolding h l using l(2) lh h(3) ne by (rule twiddle_top)
  have v: "fadd binary64 (fnat 0) (Fin 0) = Fin 0" by (simp add: fnat_def)
  have "bracket_scan tc (tc ! 0) 0
      = Some (fadd binary64 (fnat 0) (twiddle (tc ! 0) (tc ! 0) (tc ! (0 + 1))))"
    using two le unit_float_refl [OF uh] by (subst bracket_scan.simps) auto
  then show ?thesis using 0 tw v by simp
next
  case (Suc k)
  then show ?thesis using bracket_scan_own_below [OF u s d len, of k 0] i by simp
qed

lemma map_filter_total:
  "list_all (\<lambda>a. h a \<noteq> None) xs \<Longrightarrow> List.map_filter h xs = map (\<lambda>a. the (h a)) xs"
  by (induction xs) (auto split: option.splits)

lemma time_warp_own:
  assumes u: "list_all unit_float tc" and s: "sorted_wrt (\<lambda>x y. fle y x) tc"
    and d: "distinct_roots tc" and len: "length tc \<le> 2 ^ 24" and two: "2 \<le> length tc"
  shows "time_warp tc tc = map (\<lambda>i. Fin (real i)) [0..<length tc]"
proof -
  have "(2::nat) ^ 24 \<le> 2 ^ 53" by simp
  then have len53: "length tc \<le> 2 ^ 53" using len by (rule order_trans [rotated])
  note own = bracket_scan_own [OF u s d len53 two]
  have found: "list_all (\<lambda>a. bracket_scan tc a 0 \<noteq> None) tc"
    using own by (auto simp: list_all_length)
  show ?thesis
    unfolding time_warp_map_filter map_filter_total [OF found]
  proof (rule nth_equalityI)
    show "length (map (fcast binary32) (map (\<lambda>a. the (bracket_scan tc a 0)) tc)) =
        length (map (\<lambda>i. Fin (real i)) [0..<length tc])" by simp
  next
    fix i assume "i < length (map (fcast binary32) (map (\<lambda>a. the (bracket_scan tc a 0)) tc))"
    then have i: "i < length tc" by simp
    then have "i < 2 ^ 24" using len by simp
    then have "round_to binary32 (real i) = Fin (real i)" by (rule round_nat32)
    then show "map (fcast binary32) (map (\<lambda>a. the (bracket_scan tc a 0)) tc) ! i =
        map (\<lambda>i. Fin (real i)) [0..<length tc] ! i"
      using i own [OF i] by simp
  qed
qed


lemma sqrt_quarter: "sqrt (1 / 4) = 1 / 2"
  by (rule real_sqrt_unique) (simp_all add: power2_eq_square)

lemma sqrt_sixteenth: "sqrt (1 / 16) = 1 / 4"
  by (rule real_sqrt_unique) (simp_all add: power2_eq_square)

lemma quarter_cumprod:
  "valid_schedule [Fin (3 / 4), Fin (3 / 4)]"
  "cumprod (one_minus [Fin (3 / 4), Fin (3 / 4)]) = [Fin (1 / 4), Fin (1 / 16)]"
  "distinct_roots [Fin (1 / 4), Fin (1 / 16)]"
  by (simp_all add: valid_schedule_def valid_beta_def one_minus_def distinct_roots_def
      sqrt_quarter sqrt_sixteenth)


subsection \<open>Betas below the spacing of float64 at 1\<close>

lemma tiny_beta_valid: "valid_beta (Fin (2 powi (- 60)))"
proof -
  have "rnd binary64 (2 powi (- 60)) = 2 powi (- 60)" by (rule rnd_pow2) simp_all
  moreover have "(2::real) powi (- 60) < 2 powi 0"
    by (intro power_int_strict_increasing) simp_all
  ultimately show ?thesis by (simp add: valid_beta_def del: power_int_numeral_neg_numeral)
qed

lemma tiny_beta_alpha: "fsub binary64 (Fin 1) (Fin (2 powi (- 60))) = Fin 1"
proof -
  let ?x = "1 - (2::real) powi (- 60)"
  have x: "0 \<le> ?x" "?x < 1" "1 / 2 \<le> ?x" by simp_all
  have z: "?x / 2 powi (- 1 - int (prec binary64) + 1) = 2 ^ 53 - 1 / 2 ^ 7" by simp
  have "rne (2 ^ 53 - 1 / 2 ^ 7) = 2 ^ 53" by (rule rne_eqI) simp_all
  then have r: "rne (?x / 2 powi (- 1 - int (prec binary64) + 1)) = 2 ^ 53" by (simp only: z)
  have "rnd binary64 ?x =
      of_int (rne (?x / 2 powi (- 1 - int (prec binary64) + 1))) *
        2 powi (- 1 - int (prec binary64) + 1)"
    using x by (intro rnd_evalI) simp_all
  then have "rnd binary64 ?x = 1" unfolding r by simp
  moreover have "round_to binary64 ?x = Fin (rnd binary64 ?x)"
    using x by (intro round_to_unit) simp_all
  ultimately show ?thesis by (simp del: power_int_numeral_neg_numeral)
qed

lemma tiny_schedule:
  "valid_schedule [Fin (2 powi (- 60)), Fin (2 powi (- 60))]"
  "one_minus [Fin (2 powi (- 60)), Fin (2 powi (- 60))] = [Fin 1, Fin 1]"
  "cumprod (one_minus [Fin (2 powi (- 60)), Fin (2 powi (- 60))]) = [Fin 1, Fin 1]"
  using tiny_beta_valid tiny_beta_alpha
  by (simp_all add: valid_schedule_def one_minus_def del: power_int_numeral_neg_numeral)

lemma tiny_time_warp: "time_warp [Fin 1, Fin 1] [Fin 1, Fin 1] = [NaN, NaN]"
  by (simp add: time_warp_def append_found_def bracket_scan.simps twiddle_def upt_rec)

lemma tiny_schedule_builder:
  "schedule_builder [Fin (2 powi (- 60)), Fin (2 powi (- 60))]
     [Fin (2 powi (- 60)), Fin (2 powi (- 60))] = [NaN, NaN]"
  unfolding schedule_builder_def Let_def tiny_schedule(3) by (rule tiny_time_warp)

lemma one_step_schedule_builder:
  "schedule_builder [b] inference = []"
proof -
  have "bracket_scan [x] a 0 = None" for x a by (simp add: bracket_scan.simps)
  then have "List.map_filter (\<lambda>a. bracket_scan (cumprod (one_minus [b])) a 0) xs = []" for xs
    by (induction xs) (simp_all add: one_minus_def List.map_filter_simps)
  then show ?thesis by (simp add: schedule_builder_def time_warp_map_filter)
qed


subsection \<open>Monotonicity of the time warp\<close>

lemma bracket_scan_mono:
  assumes u: "list_all unit_float tc" and s: "sorted_wrt (\<lambda>x y. fle y x) tc"
    and d: "distinct_roots tc" and len: "length tc \<le> 2 ^ 53"
    and le: "a' \<le> a"
    and v: "bracket_scan tc (Fin a) 0 = Some v"
    and v': "bracket_scan tc (Fin a') 0 = Some v'"
  shows "\<exists>x y. fcast binary32 v = Fin x \<and> fcast binary32 v' = Fin y \<and> x \<le> y"
proof -
  from bracket_scan_first [OF v] obtain t where t:
    "t + 1 < length tc" "fle (tc ! (t + 1)) (Fin a)" "fle (Fin a) (tc ! t)"
    "v = fadd binary64 (fnat t) (twiddle (tc ! t) (Fin a) (tc ! (t + 1)))"
    "\<forall>u. 0 \<le> u \<and> u < t \<longrightarrow> \<not> (fle (tc ! (u + 1)) (Fin a) \<and> fle (Fin a) (tc ! u))"
    by blast
  from bracket_scan_first [OF v'] obtain t' where t':
    "t' + 1 < length tc" "fle (tc ! (t' + 1)) (Fin a')" "fle (Fin a') (tc ! t')"
    "v' = fadd binary64 (fnat t') (twiddle (tc ! t') (Fin a') (tc ! (t' + 1)))"
    by blast
  obtain w where w: "twiddle (tc ! t) (Fin a) (tc ! (t + 1)) = Fin w" "0 \<le> w" "w \<le> 1"
    "fcast binary32 (fadd binary64 (fnat t) (twiddle (tc ! t) (Fin a) (tc ! (t + 1)))) =
       Fin (rnd binary32 (rnd binary64 (real t + w)))"
    using bracket_entry [OF u s d len t(1,2,3)] by blast
  obtain w' where w': "twiddle (tc ! t') (Fin a') (tc ! (t' + 1)) = Fin w'" "0 \<le> w'" "w' \<le> 1"
    "fcast binary32 (fadd binary64 (fnat t') (twiddle (tc ! t') (Fin a') (tc ! (t' + 1)))) =
       Fin (rnd binary32 (rnd binary64 (real t' + w')))"
    using bracket_entry [OF u s d len t'(1,2,3)] by blast
  have tt: "t \<le> t'"
  proof (rule ccontr)
    assume "\<not> t \<le> t'"
    then have lt: "t' < t" by simp
    have "fle (Fin a') (Fin a)" using le by simp
    with t'(2) have lo: "fle (tc ! (t' + 1)) (Fin a)" by (rule fle_trans_unit)
    have "fle (tc ! t) (tc ! t')"
      using nonincreasing_nth [OF u s, of t' t] lt t(1) by simp
    with t(3) have "fle (Fin a) (tc ! t')" by (rule fle_trans_unit)
    then show False using lo t(5) lt by blast
  qed
  have "real t + w \<le> real t' + w'"
  proof (cases "t = t'")
    case True
    have "unit_float (tc ! t)" using u t(1) by (simp add: list_all_length)
    then obtain h where h: "tc ! t = Fin h" "0 \<le> h" "h \<le> 1" by (rule unit_floatE)
    have "unit_float (tc ! (t + 1))" using u t(1) by (simp add: list_all_length)
    then obtain l where l: "tc ! (t + 1) = Fin l" "0 \<le> l" "l \<le> 1" by (rule unit_floatE)
    have la: "l \<le> a'" using t'(2) True l(1) by simp
    have ah: "a \<le> h" using t(3) h(1) by simp
    have ne: "pow_half binary64 (Fin h) \<noteq> pow_half binary64 (Fin l)"
      using distinct_roots_nth [OF d t(1)] h(1) l(1) by simp
    have "w \<le> w'"
      using l(2) la le ah h(3) ne
    proof (rule twiddle_antitone)
      show "twiddle (Fin h) (Fin a) (Fin l) = Fin w" using w(1) h(1) l(1) by simp
      show "twiddle (Fin h) (Fin a') (Fin l) = Fin w'" using w'(1) True h(1) l(1) by simp
    qed
    then show ?thesis using True by simp
  next
    case False
    then have "Suc t \<le> t'" using tt by simp
    then have "real (Suc t) \<le> real t'" by (simp only: of_nat_le_iff)
    then show ?thesis using w(3) w'(2) by simp
  qed
  moreover have "0 \<le> real t + w" using w(2) by simp
  ultimately have "rnd binary32 (rnd binary64 (real t + w)) \<le>
      rnd binary32 (rnd binary64 (real t' + w'))"
    by (intro entry_mono)
  then show ?thesis using w(4) w'(4) t(4) t'(4) by simp
qed

lemma sorted_wrt_map_filter:
  assumes "sorted_wrt R xs"
    and "\<And>x y v w. R x y \<Longrightarrow> h x = Some v \<Longrightarrow> h y = Some w \<Longrightarrow> Q v w"
  shows "sorted_wrt Q (List.map_filter h xs)"
  using assms(1)
proof (induction xs)
  case Nil
  then show ?case by simp
next
  case (Cons x xs)
  then have tail: "sorted_wrt Q (List.map_filter h xs)" and R: "\<forall>y \<in> set xs. R x y"
    by simp_all
  show ?case
  proof (cases "h x")
    case None
    then show ?thesis using tail by simp
  next
    case (Some v)
    have "\<forall>w \<in> set (List.map_filter h xs). Q v w"
    proof
      fix w assume "w \<in> set (List.map_filter h xs)"
      then obtain y where "y \<in> set xs" "h y = Some w"
        by (auto simp: List.map_filter_def)
      then show "Q v w" using assms(2) [of x y v w] R Some by blast
    qed
    then show ?thesis using tail Some by simp
  qed
qed

lemma time_warp_sorted:
  assumes u: "list_all unit_float tc" and ua: "list_all unit_float ac"
    and s: "sorted_wrt (\<lambda>x y. fle y x) tc" and sa: "sorted_wrt (\<lambda>x y. fle y x) ac"
    and d: "distinct_roots tc" and len: "length tc \<le> 2 ^ 53"
  shows "sorted_wrt fle (time_warp tc ac)"
proof -
  have sa': "sorted_wrt (\<lambda>x y. fle y x \<and> unit_float x \<and> unit_float y) ac"
    using sa
  proof (rule sorted_wrt_mono_rel [rotated])
    fix x y assume "x \<in> set ac" "y \<in> set ac" "fle y x"
    then show "fle y x \<and> unit_float x \<and> unit_float y"
      using ua by (simp add: list_all_iff)
  qed
  have "sorted_wrt (\<lambda>v w. fle (fcast binary32 v) (fcast binary32 w))
      (List.map_filter (\<lambda>a. bracket_scan tc a 0) ac)"
  proof (rule sorted_wrt_map_filter [OF sa'])
    fix x y v w
    assume r: "fle y x \<and> unit_float x \<and> unit_float y"
      and v: "bracket_scan tc x 0 = Some v" and w: "bracket_scan tc y 0 = Some w"
    from r obtain a where a: "x = Fin a" by (auto elim: unit_floatE)
    from r obtain a' where a': "y = Fin a'" by (auto elim: unit_floatE)
    have le: "a' \<le> a" using r a a' by simp
    from bracket_scan_mono [OF u s d len le v [unfolded a] w [unfolded a']]
    show "fle (fcast binary32 v) (fcast binary32 w)" by auto
  qed
  then show ?thesis by (simp add: time_warp_map_filter sorted_wrt_map)
qed

lemma time_warp_numbers:
  assumes u: "list_all unit_float tc" and ua: "list_all unit_float ac"
    and s: "sorted_wrt (\<lambda>x y. fle y x) tc"
    and d: "distinct_roots tc" and len: "length tc \<le> 2 ^ 53"
  shows "NaN \<notin> set (time_warp tc ac)"
proof
  assume "NaN \<in> set (time_warp tc ac)"
  then obtain x v where x: "x \<in> set ac" "bracket_scan tc x 0 = Some v" "fcast binary32 v = NaN"
    by (auto simp: time_warp_map_filter List.map_filter_def)
  have "unit_float x" using ua x(1) by (simp add: list_all_iff)
  then obtain a where a: "x = Fin a" by (rule unit_floatE)
  from bracket_scan_mono [OF u s d len order_refl x(2) [unfolded a] x(2) [unfolded a]]
  show False using x(3) by auto
qed


lemma quarter_units: "list_all unit_float [Fin (1 / 4), Fin (1 / 16)]"
  by (simp add: unit_float_def)


subsection \<open>Two steps that the float32 array does not tell apart\<close>

lemma sqrt_nine_64: "sqrt (9 / 64) = 3 / 8"
  by (rule real_sqrt_unique) (simp_all add: power2_eq_square)

lemma collapse_betas:
  "valid_schedule [Fin (55 / 64), Fin (1 / 2 ^ 53)]"
proof -
  have "rnd binary64 (55 / 64) = 55 / 64" using round_dyadic64(2) [of 55 6] by simp
  moreover have "rnd binary64 (1 / 2 ^ 53) = 1 / 2 ^ 53" using round_dyadic64(2) [of 1 53] by simp
  ultimately show ?thesis by (simp add: valid_schedule_def valid_beta_def)
qed

lemma collapse_alpha0: "fsub binary64 (Fin 1) (Fin (55 / 64)) = Fin (9 / 64)"
  using round_dyadic64(1) [of 9 6] by simp

lemma collapse_alpha1: "fsub binary64 (Fin 1) (Fin (1 / 2 ^ 53)) = Fin (1 - 1 / 2 ^ 53)"
  using round_dyadic64(1) [of "2 ^ 53 - 1" 53] by simp

lemma collapse_product:
  "fmul binary64 (Fin (9 / 64)) (Fin (1 - 1 / 2 ^ 53)) = Fin (9 / 64 - 1 / 2 ^ 55)"
proof -
  let ?x = "9 / 64 * (1 - 1 / 2 ^ 53) :: real"
  have x: "0 \<le> ?x" "?x \<le> 1" by simp_all
  have z: "?x / 2 powi (- 3 - int (prec binary64) + 1) = 9 * 2 ^ 49 - 9 / 16" by simp
  have "rne (9 * 2 ^ 49 - 9 / 16) = 9 * 2 ^ 49 - 1" by (rule rne_eqI) simp_all
  then have r: "rne (?x / 2 powi (- 3 - int (prec binary64) + 1)) = 9 * 2 ^ 49 - 1"
    by (simp only: z)
  have "rnd binary64 ?x =
      of_int (rne (?x / 2 powi (- 3 - int (prec binary64) + 1))) *
        2 powi (- 3 - int (prec binary64) + 1)"
    by (rule rnd_evalI) simp_all
  then have "rnd binary64 ?x = 9 / 64 - 1 / 2 ^ 55" unfolding r by simp
  moreover have "round_to binary64 ?x = Fin (rnd binary64 ?x)"
    using x by (intro round_to_unit) simp_all
  ultimately show ?thesis by simp
qed

lemma collapse_root:
  "pow_half binary64 (Fin (9 / 64 - 1 / 2 ^ 55)) = Fin (3 / 8 - 1 / 2 ^ 54)"
proof -
  let ?a = "9 / 64 - 1 / 2 ^ 55 :: real"
  let ?s = "sqrt ?a"
  have lo: "(3 * 2 ^ 51 - 3 / 2) / 2 ^ 54 < ?s"
    by (rule real_less_rsqrt) (simp add: power2_eq_square)
  have hi: "?s < (3 * 2 ^ 51 - 1 / 2) / 2 ^ 54"
    by (rule real_less_lsqrt) (simp_all add: power2_eq_square)
  have s: "0 \<le> ?s" "?s \<le> 1" "1 / 4 \<le> ?s" "?s < 1 / 2" using lo hi by simp_all
  have z: "?s / 2 powi (- 2 - int (prec binary64) + 1) = ?s * 2 ^ 54" by simp
  have "rne (?s * 2 ^ 54) = 3 * 2 ^ 51 - 1"
    using lo hi by (intro rne_eqI) (simp_all add: field_simps)
  then have r: "rne (?s / 2 powi (- 2 - int (prec binary64) + 1)) = 3 * 2 ^ 51 - 1"
    by (simp only: z)
  have "rnd binary64 ?s =
      of_int (rne (?s / 2 powi (- 2 - int (prec binary64) + 1))) *
        2 powi (- 2 - int (prec binary64) + 1)"
    using s by (intro rnd_evalI) simp_all
  then have "rnd binary64 ?s = 3 / 8 - 1 / 2 ^ 54" unfolding r by simp
  moreover have "round_to binary64 ?s = Fin (rnd binary64 ?s)"
    using s by (intro round_to_unit) simp_all
  ultimately show ?thesis by simp
qed

lemma collapse_cast: "fcast binary32 (Fin (1 / 2 + 1 / 2 ^ 52)) = Fin (1 / 2)"
proof -
  let ?x = "1 / 2 + 1 / 2 ^ 52 :: real"
  have x: "0 \<le> ?x" "?x \<le> 1" by simp_all
  have z: "?x / 2 powi (- 1 - int (prec binary32) + 1) = 2 ^ 23 + 1 / 2 ^ 28" by simp
  have "rne (2 ^ 23 + 1 / 2 ^ 28) = 2 ^ 23" by (rule rne_eqI) simp_all
  then have r: "rne (?x / 2 powi (- 1 - int (prec binary32) + 1)) = 2 ^ 23" by (simp only: z)
  have "rnd binary32 ?x =
      of_int (rne (?x / 2 powi (- 1 - int (prec binary32) + 1))) *
        2 powi (- 1 - int (prec binary32) + 1)"
    by (rule rnd_evalI) simp_all
  then have "rnd binary32 ?x = 1 / 2" unfolding r by simp
  moreover have "round_to binary32 ?x = Fin (rnd binary32 ?x)"
    using x by (intro round_to_unit) simp_all
  ultimately show ?thesis by simp
qed

lemma collapse_cumprod:
  "cumprod (one_minus [Fin (55 / 64), Fin (1 / 2 ^ 53)]) = [Fin (9 / 64), Fin (9 / 64 - 1 / 2 ^ 55)]"
  by (simp only: one_minus_def list.map cumprod.simps cumprod_from.simps
      collapse_alpha0 collapse_alpha1 collapse_product)

lemma collapse_twiddle0: "twiddle (Fin (1 / 4)) (Fin (9 / 64)) (Fin (1 / 16)) = Fin (1 / 2)"
  by (simp add: twiddle_def sqrt_quarter sqrt_sixteenth sqrt_nine_64)

lemma collapse_twiddle1:
  "twiddle (Fin (1 / 4)) (Fin (9 / 64 - 1 / 2 ^ 55)) (Fin (1 / 16)) = Fin (1 / 2 + 1 / 2 ^ 52)"
proof -
  have n: "fsub binary64 (Fin (1 / 2)) (Fin (3 / 8 - 1 / 2 ^ 54)) = Fin (1 / 8 + 1 / 2 ^ 54)"
    using round_dyadic64(1) [of "2 ^ 51 + 1" 54] by simp
  have q: "fdiv binary64 (Fin (1 / 8 + 1 / 2 ^ 54)) (Fin (1 / 4)) = Fin (1 / 2 + 1 / 2 ^ 52)"
    using round_dyadic64(1) [of "2 ^ 51 + 1" 52] by simp
  have h: "pow_half binary64 (Fin (1 / 4)) = Fin (1 / 2)" by (simp add: sqrt_quarter)
  have l: "pow_half binary64 (Fin (1 / 16)) = Fin (1 / 4)" by (simp add: sqrt_sixteenth)
  have d: "fsub binary64 (Fin (1 / 2)) (Fin (1 / 4)) = Fin (1 / 4)" by simp
  show ?thesis unfolding twiddle_def by (simp only: h l collapse_root n d q)
qed

lemma collapse_entries:
  "fadd binary64 (fnat 0) (Fin (1 / 2)) = Fin (1 / 2)"
  "fadd binary64 (fnat 0) (Fin (1 / 2 + 1 / 2 ^ 52)) = Fin (1 / 2 + 1 / 2 ^ 52)"
  using round_dyadic64(1) [of "2 ^ 51 + 1" 52] by (simp_all add: fnat_def)

lemma collapse_time_warp:
  "time_warp [Fin (1 / 4), Fin (1 / 16)] [Fin (9 / 64), Fin (9 / 64 - 1 / 2 ^ 55)] =
     [Fin (1 / 2), Fin (1 / 2)]"
proof -
  have b0: "bracket_scan [Fin (1 / 4), Fin (1 / 16)] (Fin (9 / 64)) 0 = Some (Fin (1 / 2))"
    by (subst bracket_scan.simps) (simp add: collapse_twiddle0 collapse_entries(1))
  have b1: "bracket_scan [Fin (1 / 4), Fin (1 / 16)] (Fin (9 / 64 - 1 / 2 ^ 55)) 0 =
      Some (Fin (1 / 2 + 1 / 2 ^ 52))"
    by (subst bracket_scan.simps)
      (simp add: collapse_twiddle1 [simplified] collapse_entries(2) [simplified])
  have "List.map_filter (\<lambda>a. bracket_scan [Fin (1 / 4), Fin (1 / 16)] a 0)
      [Fin (9 / 64), Fin (9 / 64 - 1 / 2 ^ 55)] = [Fin (1 / 2), Fin (1 / 2 + 1 / 2 ^ 52)]"
    by (simp only: List.map_filter_simps b0 b1 option.case)
  moreover have c0: "fcast binary32 (Fin (1 / 2)) = Fin (1 / 2)" by simp
  ultimately show ?thesis
    unfolding time_warp_map_filter by (simp only: list.map collapse_cast)
qed


section \<open>Properties of the sampler\<close>

subsection \<open>Errors and lookups\<close>

lemma bind_e_Inr [simp]: "bind_e (Inr x) f = f x"
  by (simp add: bind_e_def)

lemma bind_e_Inl [simp]: "bind_e (Inl e) f = Inl e"
  by (simp add: bind_e_def)

lemma bind_e_eq_Inr: "bind_e m f = Inr y \<longleftrightarrow> (\<exists>x. m = Inr x \<and> f x = Inr y)"
  by (cases m) simp_all

lemma index_in_range [simp]: "n < length xs \<Longrightarrow> index xs n = Inr (xs ! n)"
  by (simp add: index_def)

lemma index_eq_Inr: "index xs n = Inr x \<longleftrightarrow> n < length xs \<and> x = xs ! n"
  by (auto simp: index_def)

subsection \<open>The loop against the specification\<close>

lemma inject_noise_spec:
  assumes "0 < n" "n < length (alpha_cum inp)" "n < length (beta inp)"
  shows "inject_noise inp n st =
           Inr (st\<lparr>draws := Suc (draws st),
                   audio := tadd (audio st)
                     (tscale (pow_half binary64
                        (fmul binary64
                          (fdiv binary64 (fsub binary64 (Fin 1) (alpha_cum inp ! (n - 1)))
                            (fsub binary64 (Fin 1) (alpha_cum inp ! n)))
                          (beta inp ! n)))
                        (tmul (randn (gen inp) (draws st) (length (audio st))) (target_std inp)))\<rparr>)"
  using assms by (simp add: inject_noise_def Let_def)

lemma update_as_zip:
  "tscale c1 (tsub x (tscale c2 e)) =
     map (\<lambda>(u, v). fmul binary32 (fcast binary32 c1)
            (fsub binary32 u (fmul binary32 (fcast binary32 c2) v))) (zip x e)"
  by (simp add: tscale_def tsub_def zip_map2 split_def)

lemma noise_as_zip:
  "tadd x (tscale s (tmul z sd)) =
     map (\<lambda>(u, v, w). fadd binary32 u (fmul binary32 (fcast binary32 s) (fmul binary32 v w)))
       (zip x (zip z sd))"
  by (simp add: tscale_def tadd_def tmul_def zip_map2 split_def)

lemma denoise_update_spec:
  assumes "n < length (alpha inp)" "n < length (beta inp)" "n < length (alpha_cum inp)"
    "n < length (T inp)"
  shows "denoise_update inp n st =
           Inr (st\<lparr>audio := tscale (fdiv binary64 (Fin 1) (pow_half binary64 (alpha inp ! n)))
                     (tsub (audio st)
                        (tscale (fdiv binary64 (beta inp ! n)
                                   (pow_half binary64 (fsub binary64 (Fin 1) (alpha_cum inp ! n))))
                           (model inp (audio st) (spectrogram inp) (T inp ! n) (global_cond inp)))),
                   calls := Suc (calls st)\<rparr>)"
  using assms by (simp add: denoise_update_def Let_def)

lemma sampler_step_spec:
  assumes "consistent_lengths inp" and "n < length (beta inp)"
  shows "sampler_step inp n st = Inr (spec_iteration inp n st)"
proof -
  have len: "n < length (alpha inp)" "n < length (alpha_cum inp)" "n < length (T inp)"
    using assms by (simp_all add: consistent_lengths_def)
  show ?thesis
  proof (cases "0 < n")
    case True
    then show ?thesis
      using len assms(2)
      by (simp add: sampler_step_def denoise_update_spec spec_iteration_def Let_def
          inject_noise_spec update_as_zip noise_as_zip)
  next
    case False
    then show ?thesis
      using len assms(2)
      by (simp add: sampler_step_def denoise_update_spec spec_iteration_def Let_def
          update_as_zip)
  qed
qed

lemma sampler_loop_spec:
  assumes "consistent_lengths inp"
  shows "k \<le> length (beta inp) \<Longrightarrow>
         sampler_loop inp k st = Inr (foldl (\<lambda>s n. spec_iteration inp n s) st (rev [0..<k]))"
proof (induction k arbitrary: st)
  case 0
  then show ?case by simp
next
  case (Suc k)
  then have "k < length (beta inp)" by simp
  then have "sampler_step inp k st = Inr (spec_iteration inp k st)"
    using assms by (rule sampler_step_spec [rotated])
  then show ?case using Suc by simp
qed

text \<open>
  Claim C3. With one entry of \<open>alpha\<close>, \<open>alpha_cum\<close> and \<open>T\<close> per step of \<open>beta\<close>, the
  loop raises nothing and runs the iterations \<open>n = len - 1, ..., 0\<close> in this order, each
  one being the iteration of the specification: the update with \<open>c1 = 1/sqrt(alpha[n])\<close>
  and \<open>c2 = beta[n]/sqrt(1 - alpha_cum[n])\<close>, then, exactly when \<open>n > 0\<close>, one fresh
  draw scaled by \<open>target_std\<close> and \<open>sigma\<close>, then the clamp.
\<close>

theorem sampler_refines_spec:
  assumes "consistent_lengths inp"
  shows "sampler_loop inp (length (alpha inp)) st =
           Inr (foldl (\<lambda>s n. spec_iteration inp n s) st (rev [0..<length (beta inp)]))"
proof -
  have "length (alpha inp) = length (beta inp)"
    using assms by (simp add: consistent_lengths_def)
  then show ?thesis using sampler_loop_spec [OF assms, of "length (beta inp)" st] by simp
qed

theorem sampler_refines_spec_witness:
  "consistent_lengths two_step_inputs \<and>
   sampler_loop two_step_inputs 2 \<lparr>audio = [Fin (1 / 4), Fin (- 3)], draws = 1, calls = 0\<rparr> =
     Inr (spec_iteration two_step_inputs 0
           (spec_iteration two_step_inputs 1
              \<lparr>audio = [Fin (1 / 4), Fin (- 3)], draws = 1, calls = 0\<rparr>))"
proof -
  have c: "consistent_lengths two_step_inputs"
    by (simp add: consistent_lengths_def two_step_inputs_def)
  have a: "length (alpha two_step_inputs) = 2" and b: "length (beta two_step_inputs) = 2"
    by (simp_all add: two_step_inputs_def)
  have r: "rev [0..<2] = [1, 0]" by (simp add: upt_rec)
  show ?thesis
    using c sampler_refines_spec [OF c,
        of "\<lparr>audio = [Fin (1 / 4), Fin (- 3)], draws = 1, calls = 0\<rparr>"]
    by (simp add: a b r)
qed

subsection \<open>Clamping\<close>

lemma clamp_value_range:
  "(case clamp_value v (Fin (- 1)) (Fin 1) of Fin r \<Rightarrow> - 1 \<le> r \<and> r \<le> 1 | NaN \<Rightarrow> True | _ \<Rightarrow> False)"
  by (cases v) (simp_all add: clamp_value_def)

lemma nan_or_in_unit_range_clamp: "nan_or_in_unit_range (clamp x (Fin (- 1)) (Fin 1))"
  by (simp add: nan_or_in_unit_range_def clamp_def list_all_iff clamp_value_range)

lemma sampler_step_clamped:
  "sampler_step inp n st = Inr st' \<Longrightarrow> nan_or_in_unit_range (audio st')"
  unfolding sampler_step_def bind_e_eq_Inr
  by (auto simp: nan_or_in_unit_range_clamp)

lemma sampler_loop_keeps_range:
  "sampler_loop inp k st = Inr st' \<Longrightarrow> nan_or_in_unit_range (audio st) \<Longrightarrow>
     nan_or_in_unit_range (audio st')"
proof (induction k arbitrary: st)
  case 0
  then show ?case by simp
next
  case (Suc k)
  from Suc.prems(1) obtain st1 where
    step: "sampler_step inp k st = Inr st1" and rest: "sampler_loop inp k st1 = Inr st'"
    by (auto simp: bind_e_eq_Inr)
  show ?case using Suc.IH [OF rest sampler_step_clamped [OF step]] .
qed

lemma sampler_loop_clamped:
  assumes "0 < k" and "sampler_loop inp k st = Inr st'"
  shows "nan_or_in_unit_range (audio st')"
proof -
  obtain j where k: "k = Suc j" using assms(1) by (cases k) simp_all
  from assms(2) obtain st1 where
    step: "sampler_step inp j st = Inr st1" and rest: "sampler_loop inp j st1 = Inr st'"
    unfolding k by (auto simp: bind_e_eq_Inr)
  show ?thesis using sampler_loop_keeps_range [OF rest sampler_step_clamped [OF step]] .
qed

lemma exact32_more [simp]:
  "round_to binary32 6 = Fin 6"
  "round_to binary32 3 = Fin 3"
  using round_dyadic32 [of 6 0] round_dyadic32 [of 3 0] by simp_all

lemma one_step_result:
  "sampler_step one_step_inputs 0 \<lparr>audio = [Fin (1 / 4), Fin 3], draws = 1, calls = 0\<rparr> =
     Inr \<lparr>audio = [Fin (1 / 2), Fin 1], draws = 1, calls = 1\<rparr>"
  by (simp add: sampler_step_def denoise_update_def one_step_inputs_def zero_model_def Let_def
      tscale_def tsub_def clamp_def clamp_value_def sqrt_quarter)

text \<open>
  Claim C4, amended. An iteration that completes leaves every element of \<open>audio\<close> either
  NaN or in [-1, 1], and so does a loop of at least one iteration: \<open>torch.clamp\<close> keeps
  a NaN.
\<close>

theorem clamping_invariant:
  "(sampler_step inp n st = Inr st1 \<longrightarrow> nan_or_in_unit_range (audio st1)) \<and>
   (0 < k \<and> sampler_loop inp k st = Inr st2 \<longrightarrow> nan_or_in_unit_range (audio st2))"
proof (intro conjI impI)
  assume "sampler_step inp n st = Inr st1"
  then show "nan_or_in_unit_range (audio st1)" by (rule sampler_step_clamped)
next
  assume "0 < k \<and> sampler_loop inp k st = Inr st2"
  then show "nan_or_in_unit_range (audio st2)" using sampler_loop_clamped by blast
qed

theorem clamping_invariant_witness:
  "sampler_step one_step_inputs 0 \<lparr>audio = [Fin (1 / 4), Fin 3], draws = 1, calls = 0\<rparr> =
     Inr \<lparr>audio = [Fin (1 / 2), Fin 1], draws = 1, calls = 1\<rparr> \<and>
   sampler_loop one_step_inputs 1 \<lparr>audio = [Fin (1 / 4), Fin 3], draws = 1, calls = 0\<rparr> =
     Inr \<lparr>audio = [Fin (1 / 2), Fin 1], draws = 1, calls = 1\<rparr> \<and>
   nan_or_in_unit_range (audio \<lparr>audio = [Fin (1 / 2), Fin 1], draws = 1, calls = 1\<rparr>)"
proof -
  let ?st = "\<lparr>audio = [Fin (1 / 4), Fin 3], draws = 1, calls = 0\<rparr>"
  let ?st' = "\<lparr>audio = [Fin (1 / 2), Fin 1], draws = 1, calls = 1\<rparr>"
  have step: "sampler_step one_step_inputs 0 ?st = Inr ?st'" by (rule one_step_result)
  then have loop: "sampler_loop one_step_inputs 1 ?st = Inr ?st'" by simp
  note inv = clamping_invariant [of one_step_inputs 0 ?st ?st' 1 ?st']
  show ?thesis using step loop inv by blast
qed

subsection \<open>A run of \<open>main\<close> that ends with NaN\<close>

lemma tiny_main_inputs:
  "main_inputs
     \<lparr>noise_schedule = [Fin (2 powi (- 60)), Fin (2 powi (- 60))],
      inference_noise_schedule = [Fin (2 powi (- 60)), Fin (2 powi (- 60))],
      enable_remove_cutoff_alias = None\<rparr> two_step_inputs =
   two_step_inputs\<lparr>T := [NaN, NaN], alpha := [Fin 1, Fin 1], alpha_cum := [Fin 1, Fin 1],
     beta := [Fin (2 powi (- 60)), Fin (2 powi (- 60))]\<rparr>"
  by (simp add: main_inputs_def main_inference_schedule_def fast_sampling_def Let_def
      tiny_schedule tiny_schedule_builder del: power_int_numeral_neg_numeral)

lemma tiny_c2:
  "fdiv binary64 (Fin (2 powi (- 60))) (pow_half binary64 (fsub binary64 (Fin 1) (Fin 1))) = PInf"
  by simp

lemma tiny_sigma:
  "pow_half binary64
     (fmul binary64
        (fdiv binary64 (fsub binary64 (Fin 1) (Fin 1)) (fsub binary64 (Fin 1) (Fin 1)))
        (Fin (2 powi (- 60)))) = NaN"
  by simp

lemma tiny_step1:
  "sampler_step
     (two_step_inputs\<lparr>T := [NaN, NaN], alpha := [Fin 1, Fin 1], alpha_cum := [Fin 1, Fin 1],
        beta := [Fin (2 powi (- 60)), Fin (2 powi (- 60))]\<rparr>) 1
     \<lparr>audio = [Fin 1, Fin 1], draws = 1, calls = 0\<rparr> =
   Inr \<lparr>audio = [NaN, NaN], draws = 2, calls = 1\<rparr>"
  unfolding sampler_step_def denoise_update_def inject_noise_def Let_def
  by (simp add: two_step_inputs_def zero_model_def tscale_def tsub_def tadd_def tmul_def
      clamp_def clamp_value_def randn_def del: power_int_numeral_neg_numeral)

lemma tiny_step0:
  "sampler_step
     (two_step_inputs\<lparr>T := [NaN, NaN], alpha := [Fin 1, Fin 1], alpha_cum := [Fin 1, Fin 1],
        beta := [Fin (2 powi (- 60)), Fin (2 powi (- 60))]\<rparr>) 0
     \<lparr>audio = [NaN, NaN], draws = 2, calls = 1\<rparr> =
   Inr \<lparr>audio = [NaN, NaN], draws = 2, calls = 2\<rparr>"
  unfolding sampler_step_def denoise_update_def Let_def
  by (simp add: two_step_inputs_def zero_model_def tscale_def tsub_def
      clamp_def clamp_value_def del: power_int_numeral_neg_numeral)

lemma tiny_predict_state:
  "predict_state
     (two_step_inputs\<lparr>T := [NaN, NaN], alpha := [Fin 1, Fin 1], alpha_cum := [Fin 1, Fin 1],
        beta := [Fin (2 powi (- 60)), Fin (2 powi (- 60))]\<rparr>) =
   Inr \<lparr>audio = [NaN, NaN], draws = 2, calls = 2\<rparr>"
proof -
  let ?inp = "two_step_inputs\<lparr>T := [NaN, NaN], alpha := [Fin 1, Fin 1],
    alpha_cum := [Fin 1, Fin 1], beta := [Fin (2 powi (- 60)), Fin (2 powi (- 60))]\<rparr>"
  have n: "initial_numel ?inp = Inr 2"
    by (simp add: initial_numel_def two_step_inputs_def)
  have a: "tmul (randn (gen ?inp) 0 2) (target_std ?inp) = [Fin 1, Fin 1]"
    by (simp add: tmul_def randn_def two_step_inputs_def upt_rec)
  have l: "length (alpha ?inp) = Suc (Suc 0)" by simp
  show ?thesis
    unfolding predict_state_def n bind_e_Inr a l sampler_loop.simps
    by (simp only: One_nat_def [symmetric] tiny_step1 tiny_step0 bind_e_Inr)
qed

text \<open>
  Claim C4 as stated fails on a run of \<open>main\<close>. For the schedule \<open>[2^-60, 2^-60]\<close>, in
  (0,1), every alpha and cumulative alpha is the float64 1.0, so \<open>c2\<close> is
  \<open>beta / 0.0 = inf\<close>; with the stub denoiser \<open>f = 0\<close> the product \<open>c2 * f\<close> is NaN, the
  clamp keeps it, and the run ends with an audio tensor of NaN, outside [-1, 1].
\<close>

theorem clamping_keeps_nan:
  "valid_schedule [Fin (2 powi (- 60)), Fin (2 powi (- 60))] \<and>
   main_sample \<lparr>fast = False, fast_iter = None\<rparr>
     \<lparr>noise_schedule = [Fin (2 powi (- 60)), Fin (2 powi (- 60))],
      inference_noise_schedule = [Fin (2 powi (- 60)), Fin (2 powi (- 60))],
      enable_remove_cutoff_alias = None\<rparr> two_step_inputs =
     Inr \<lparr>audio = [NaN, NaN], draws = 2, calls = 2\<rparr> \<and>
   \<not> in_unit_range [NaN, NaN]"
proof -
  have "main_sample \<lparr>fast = False, fast_iter = None\<rparr>
     \<lparr>noise_schedule = [Fin (2 powi (- 60)), Fin (2 powi (- 60))],
      inference_noise_schedule = [Fin (2 powi (- 60)), Fin (2 powi (- 60))],
      enable_remove_cutoff_alias = None\<rparr> two_step_inputs =
     Inr \<lparr>audio = [NaN, NaN], draws = 2, calls = 2\<rparr>"
    unfolding main_sample_def apply_fast_args_def Let_def
    by (simp add: tiny_main_inputs tiny_predict_state del: power_int_numeral_neg_numeral)
  moreover have "\<not> in_unit_range [NaN, NaN]" by (simp add: in_unit_range_def)
  ultimately show ?thesis using tiny_schedule(1) by (intro conjI)
qed

subsection \<open>A schedule of one step\<close>

text \<open>
  Claim C8, amended. With an inference schedule of length 1 and arrays \<open>alpha\<close>,
  \<open>alpha_cum\<close> and \<open>T\<close> of that length, the loop returns the state of the
  specification's iteration 0: one call of the denoiser, whose output enters the
  update of \<open>audio\<close>, no fresh noise, and every element of the clamped audio NaN or in
  [-1, 1].
\<close>

theorem single_step_schedule:
  assumes "consistent_lengths inp" and "length (beta inp) = 1"
  shows "sampler_loop inp (length (alpha inp)) st = Inr (spec_iteration inp 0 st) \<and>
         calls (spec_iteration inp 0 st) = calls st + 1 \<and>
         draws (spec_iteration inp 0 st) = draws st \<and>
         audio (spec_iteration inp 0 st) =
           clamp (tscale (fdiv binary64 (Fin 1) (pow_half binary64 (alpha inp ! 0)))
                    (tsub (audio st)
                       (tscale (fdiv binary64 (beta inp ! 0)
                                  (pow_half binary64 (fsub binary64 (Fin 1) (alpha_cum inp ! 0))))
                          (model inp (audio st) (spectrogram inp) (T inp ! 0) (global_cond inp)))))
             (Fin (- 1)) (Fin 1) \<and>
         nan_or_in_unit_range (audio (spec_iteration inp 0 st))"
proof -
  have len: "length (alpha inp) = 1"
    using assms by (simp add: consistent_lengths_def)
  have "sampler_step inp 0 st = Inr (spec_iteration inp 0 st)"
    using assms by (simp add: sampler_step_spec)
  then have run: "sampler_loop inp (length (alpha inp)) st = Inr (spec_iteration inp 0 st)"
    using len by simp
  moreover have "calls (spec_iteration inp 0 st) = calls st + 1"
    and "draws (spec_iteration inp 0 st) = draws st"
    by (simp_all add: spec_iteration_def Let_def)
  moreover have "audio (spec_iteration inp 0 st) =
      clamp (tscale (fdiv binary64 (Fin 1) (pow_half binary64 (alpha inp ! 0)))
               (tsub (audio st)
                  (tscale (fdiv binary64 (beta inp ! 0)
                             (pow_half binary64 (fsub binary64 (Fin 1) (alpha_cum inp ! 0))))
                     (model inp (audio st) (spectrogram inp) (T inp ! 0) (global_cond inp)))))
        (Fin (- 1)) (Fin 1)"
    by (simp add: spec_iteration_def Let_def update_as_zip)
  moreover have "nan_or_in_unit_range (audio (spec_iteration inp 0 st))"
    by (simp add: spec_iteration_def Let_def nan_or_in_unit_range_clamp)
  ultimately show ?thesis by (intro conjI)
qed

theorem single_step_schedule_witness:
  "consistent_lengths one_step_inputs \<and> length (beta one_step_inputs) = 1 \<and>
   sampler_loop one_step_inputs (length (alpha one_step_inputs))
     \<lparr>audio = [Fin (1 / 4), Fin 3], draws = 1, calls = 0\<rparr> =
     Inr (spec_iteration one_step_inputs 0 \<lparr>audio = [Fin (1 / 4), Fin 3], draws = 1, calls = 0\<rparr>) \<and>
   spec_iteration one_step_inputs 0 \<lparr>audio = [Fin (1 / 4), Fin 3], draws = 1, calls = 0\<rparr> =
     \<lparr>audio = [Fin (1 / 2), Fin 1], draws = 1, calls = 1\<rparr>"
proof -
  let ?st = "\<lparr>audio = [Fin (1 / 4), Fin 3], draws = 1, calls = 0\<rparr>"
  have c: "consistent_lengths one_step_inputs" and l: "length (beta one_step_inputs) = 1"
    by (simp_all add: consistent_lengths_def one_step_inputs_def)
  have la: "length (alpha one_step_inputs) = Suc 0" by (simp add: one_step_inputs_def)
  note s = single_step_schedule [OF c l, of ?st]
  then have run: "sampler_loop one_step_inputs (length (alpha one_step_inputs)) ?st =
      Inr (spec_iteration one_step_inputs 0 ?st)" by (rule conjunct1)
  have "sampler_step one_step_inputs 0 ?st = Inr (spec_iteration one_step_inputs 0 ?st)"
    using c l by (simp add: sampler_step_spec)
  then have "spec_iteration one_step_inputs 0 ?st =
      \<lparr>audio = [Fin (1 / 2), Fin 1], draws = 1, calls = 1\<rparr>"
    unfolding one_step_result by simp
  then show ?thesis using c l run by (intro conjI)
qed

lemma main_single_step_raises:
  assumes "length (noise_schedule p) = 1" and "audio_channels example \<noteq> 0"
  shows "main_sample \<lparr>fast = False, fast_iter = None\<rparr> p example = Inl IndexError"
proof -
  obtain b where b: "noise_schedule p = [b]"
    using assms(1) by (cases "noise_schedule p") simp_all
  have T: "T (main_inputs p example) = []"
    by (simp add: main_inputs_def main_inference_schedule_def fast_sampling_def Let_def b
        one_step_schedule_builder)
  have a: "length (alpha (main_inputs p example)) = Suc 0"
    by (simp add: main_inputs_def main_inference_schedule_def fast_sampling_def Let_def b)
  have others: "alpha (main_inputs p example) = one_minus [b]"
    "alpha_cum (main_inputs p example) = cumprod (one_minus [b])"
    "beta (main_inputs p example) = [b]"
    by (simp_all add: main_inputs_def main_inference_schedule_def fast_sampling_def Let_def b)
  have step: "sampler_step (main_inputs p example) 0 st = Inl IndexError" for st
    unfolding sampler_step_def denoise_update_def Let_def T others
    by (simp add: index_def one_minus_def)
  have n: "audio_channels (main_inputs p example) \<noteq> 0"
    using assms(2) by (simp add: main_inputs_def Let_def)
  show ?thesis
    unfolding main_sample_def apply_fast_args_def Let_def
    by (simp add: predict_state_def initial_numel_def n a step)
qed

lemma nan_one_step:
  "sampler_loop
     (one_step_inputs\<lparr>alpha := [Fin 1], alpha_cum := [Fin 1], beta := [Fin (2 powi (- 60))]\<rparr>) 1
     \<lparr>audio = [Fin (1 / 4), Fin 3], draws = 1, calls = 0\<rparr> =
   Inr \<lparr>audio = [NaN, NaN], draws = 1, calls = 1\<rparr>"
  unfolding sampler_loop.simps One_nat_def sampler_step_def denoise_update_def Let_def
  by (simp add: one_step_inputs_def zero_model_def tscale_def tsub_def
      clamp_def clamp_value_def del: power_int_numeral_neg_numeral)

text \<open>
  Claim C8 as stated fails twice. In \<open>main\<close> a schedule of one step leaves \<open>T\<close> empty, and
  the single iteration raises IndexError at \<open>T[0]\<close> before the denoiser is called. In
  \<open>predict\<close>, with arrays of length one and a cumulative alpha that is the float64 1.0,
  the one call is made and no noise is drawn, but the clamped audio is NaN.
\<close>

theorem single_step_schedule_fails:
  "length (main_inference_schedule (example_params\<lparr>noise_schedule := [Fin (1 / 2)]\<rparr>)) = 1 \<and>
   main_sample \<lparr>fast = False, fast_iter = None\<rparr>
     (example_params\<lparr>noise_schedule := [Fin (1 / 2)]\<rparr>) one_step_inputs = Inl IndexError \<and>
   consistent_lengths
     (one_step_inputs\<lparr>alpha := [Fin 1], alpha_cum := [Fin 1], beta := [Fin (2 powi (- 60))]\<rparr>) \<and>
   sampler_loop
     (one_step_inputs\<lparr>alpha := [Fin 1], alpha_cum := [Fin 1], beta := [Fin (2 powi (- 60))]\<rparr>) 1
     \<lparr>audio = [Fin (1 / 4), Fin 3], draws = 1, calls = 0\<rparr> =
     Inr \<lparr>audio = [NaN, NaN], draws = 1, calls = 1\<rparr> \<and>
   \<not> in_unit_range [NaN, NaN]"
proof -
  have l: "length (main_inference_schedule (example_params\<lparr>noise_schedule := [Fin (1 / 2)]\<rparr>)) = 1"
    by (simp add: main_inference_schedule_def fast_sampling_def)
  have r: "main_sample \<lparr>fast = False, fast_iter = None\<rparr>
      (example_params\<lparr>noise_schedule := [Fin (1 / 2)]\<rparr>) one_step_inputs = Inl IndexError"
    by (rule main_single_step_raises) (simp_all add: one_step_inputs_def)
  have c: "consistent_lengths
      (one_step_inputs\<lparr>alpha := [Fin 1], alpha_cum := [Fin 1], beta := [Fin (2 powi (- 60))]\<rparr>)"
    by (simp add: consistent_lengths_def one_step_inputs_def)
  have n: "\<not> in_unit_range [NaN, NaN]" by (simp add: in_unit_range_def)
  show ?thesis using l r c nan_one_step n by (intro conjI)
qed

subsection \<open>Dependence on the random generator\<close>

lemma inject_noise_gen:
  assumes "g1 (draws st) = g2 (draws st)"
  shows "inject_noise (inp\<lparr>gen := g1\<rparr>) n st = inject_noise (inp\<lparr>gen := g2\<rparr>) n st"
  using assms by (simp add: inject_noise_def randn_def)

lemma denoise_update_gen:
  "denoise_update (inp\<lparr>gen := g1\<rparr>) n st = denoise_update (inp\<lparr>gen := g2\<rparr>) n st"
  by (simp add: denoise_update_def)

lemma denoise_update_draws:
  "denoise_update inp n st = Inr st1 \<Longrightarrow> draws st1 = draws st"
  unfolding denoise_update_def Let_def bind_e_eq_Inr by auto

lemma inject_noise_draws:
  "inject_noise inp n st = Inr st' \<Longrightarrow> draws st' = Suc (draws st)"
  unfolding inject_noise_def Let_def bind_e_eq_Inr by auto

lemma sampler_step_gen:
  assumes "0 < n \<Longrightarrow> g1 (draws st) = g2 (draws st)"
  shows "sampler_step (inp\<lparr>gen := g1\<rparr>) n st = sampler_step (inp\<lparr>gen := g2\<rparr>) n st"
proof -
  have upd: "denoise_update (inp\<lparr>gen := g1\<rparr>) n st = denoise_update (inp\<lparr>gen := g2\<rparr>) n st"
    by (rule denoise_update_gen)
  show ?thesis
  proof (cases "denoise_update (inp\<lparr>gen := g2\<rparr>) n st")
    case (Inl e)
    then show ?thesis unfolding sampler_step_def upd by simp
  next
    case (Inr st1)
    then have d: "draws st1 = draws st" by (rule denoise_update_draws)
    show ?thesis
    proof (cases "0 < n")
      case True
      then have "g1 (draws st1) = g2 (draws st1)" using assms d by simp
      then have "inject_noise (inp\<lparr>gen := g1\<rparr>) n st1 = inject_noise (inp\<lparr>gen := g2\<rparr>) n st1"
        by (rule inject_noise_gen)
      then show ?thesis unfolding sampler_step_def upd Inr using True by simp
    next
      case False
      then show ?thesis unfolding sampler_step_def upd Inr by simp
    qed
  qed
qed

lemma sampler_step_draws:
  assumes "sampler_step inp n st = Inr st'"
  shows "draws st' = (if 0 < n then Suc (draws st) else draws st)"
proof -
  from assms obtain st1 st2 where
    upd: "denoise_update inp n st = Inr st1"
    and mid: "(if 0 < n then inject_noise inp n st1 else Inr st1) = Inr st2"
    and fin: "st' = st2\<lparr>audio := clamp (audio st2) (Fin (- 1)) (Fin 1)\<rparr>"
    unfolding sampler_step_def bind_e_eq_Inr by auto
  have "draws st2 = (if 0 < n then Suc (draws st1) else draws st1)"
    using mid inject_noise_draws [of inp n st1 st2] by (simp split: if_splits)
  then show ?thesis using fin denoise_update_draws [OF upd] by simp
qed

lemma sampler_loop_gen:
  "(\<And>j. draws st \<le> j \<Longrightarrow> j + 1 < draws st + k \<Longrightarrow> g1 j = g2 j) \<Longrightarrow>
     sampler_loop (inp\<lparr>gen := g1\<rparr>) k st = sampler_loop (inp\<lparr>gen := g2\<rparr>) k st"
proof (induction k arbitrary: st)
  case 0
  then show ?case by simp
next
  case (Suc k)
  have step: "sampler_step (inp\<lparr>gen := g1\<rparr>) k st = sampler_step (inp\<lparr>gen := g2\<rparr>) k st"
    by (rule sampler_step_gen) (simp add: Suc.prems)
  show ?case
  proof (cases "sampler_step (inp\<lparr>gen := g2\<rparr>) k st")
    case (Inl e)
    then show ?thesis using step by simp
  next
    case (Inr st1)
    have d: "draws st1 = (if 0 < k then Suc (draws st) else draws st)"
      using Inr by (rule sampler_step_draws)
    have "sampler_loop (inp\<lparr>gen := g1\<rparr>) k st1 = sampler_loop (inp\<lparr>gen := g2\<rparr>) k st1"
    proof (rule Suc.IH)
      fix j assume "draws st1 \<le> j" "j + 1 < draws st1 + k"
      then show "g1 j = g2 j" using d Suc.prems [of j] by (simp split: if_splits)
    qed
    then show ?thesis using step Inr by simp
  qed
qed

text \<open>
  Claim C5. Two runs of \<open>predict\<close> on the same inputs and the same denoiser, whose
  generators yield the same first draw and the same draw at every step that injects
  noise, return the same result (the same audio, or the same error), whatever the
  generators would yield later.
\<close>

theorem seeded_runs_agree:
  assumes "g1 0 = g2 0"
    and "\<forall>j. 0 < j \<and> j < length (alpha inp) \<longrightarrow> g1 j = g2 j"
  shows "predict (inp\<lparr>gen := g1\<rparr>) = predict (inp\<lparr>gen := g2\<rparr>)"
proof -
  have "sampler_loop (inp\<lparr>gen := g1\<rparr>) (length (alpha inp)) \<lparr>audio = a, draws = 1, calls = 0\<rparr>
      = sampler_loop (inp\<lparr>gen := g2\<rparr>) (length (alpha inp)) \<lparr>audio = a, draws = 1, calls = 0\<rparr>"
    for a
    by (rule sampler_loop_gen) (simp add: assms(2))
  then have "predict_state (inp\<lparr>gen := g1\<rparr>) = predict_state (inp\<lparr>gen := g2\<rparr>)"
    using assms(1) by (simp add: predict_state_def initial_numel_def randn_def)
  then show ?thesis by (simp add: predict_def)
qed

theorem seeded_runs_agree_witness:
  "length (alpha two_step_inputs) = 2 \<and>
   predict (two_step_inputs\<lparr>gen := \<lambda>k i. if k < 2 then Fin 1 else Fin 0\<rparr>) =
   predict (two_step_inputs\<lparr>gen := \<lambda>k i. if k < 2 then Fin 1 else Fin 5\<rparr>)"
proof -
  let ?g1 = "\<lambda>(k::nat) (i::nat). if k < 2 then Fin 1 else Fin 0"
  let ?g2 = "\<lambda>(k::nat) (i::nat). if k < 2 then Fin 1 else Fin 5"
  have l: "length (alpha two_step_inputs) = 2" by (simp add: two_step_inputs_def)
  have h0: "?g1 0 = ?g2 0" by simp
  have h: "\<forall>j. 0 < j \<and> j < length (alpha two_step_inputs) \<longrightarrow> ?g1 j = ?g2 j"
    by (simp add: l)
  show ?thesis using l seeded_runs_agree [of ?g1 ?g2 two_step_inputs, OF h0 h] by simp
qed

section \<open>Properties of the driver\<close>

subsection \<open>The \<open>--fast\<close> flag\<close>

lemma main_beta_is_training:
  "beta (main_inputs p example) = noise_schedule p"
  by (simp add: main_inputs_def main_inference_schedule_def fast_sampling_def Let_def)

lemma apply_fast_args_keeps_training:
  "apply_fast_args a p = Inr (p', k) \<Longrightarrow> noise_schedule p' = noise_schedule p"
  by (auto simp: apply_fast_args_def Let_def bind_e_eq_Inr split: if_splits option.splits)

text \<open>
  Claim C1 fails on the code. With \<open>--fast --fast_iter 6\<close> the override stores the
  six-step schedule in \<open>inference_noise_schedule\<close>, but with \<open>fast_sampling = False\<close>
  (line 259) the loop's \<open>beta\<close> is the training schedule, here of three steps.
\<close>

theorem fast_flag_ignored:
  "apply_fast_args \<lparr>fast = True, fast_iter = Some 6\<rparr> example_params =
     Inr (example_params
            \<lparr>inference_noise_schedule :=
               [lit (1 / 10000), lit 0.0215, lit 0.045, lit 0.08, lit 0.2, lit 0.5]\<rparr>, Some 6) \<and>
   beta (main_inputs
          (example_params\<lparr>inference_noise_schedule :=
             [lit (1 / 10000), lit 0.0215, lit 0.045, lit 0.08, lit 0.2, lit 0.5]\<rparr>)
          two_step_inputs) = [lit (1 / 10000), lit (501 / 20000), lit (1 / 20)] \<and>
   length (alpha (main_inputs
          (example_params\<lparr>inference_noise_schedule :=
             [lit (1 / 10000), lit 0.0215, lit 0.045, lit 0.08, lit 0.2, lit 0.5]\<rparr>)
          two_step_inputs)) = 3"
  by (simp add: apply_fast_args_def noise_override_def main_inputs_def example_params_def
      main_inference_schedule_def fast_sampling_def Let_def)

subsection \<open>Post-processing without the alias flag\<close>

text \<open>
  Claim C10. When the hyperparameters have no attribute \<open>enable_remove_cutoff_alias\<close>,
  post-processing raises nothing, hands the two bands unchanged to the inverse wavelet
  transform, and returns what it returns when the attribute is false.
\<close>

theorem missing_alias_flag:
  assumes "enable_remove_cutoff_alias p = None"
  shows "post_process ops p a = Inr (squeeze1 ops (idwt ops (channels ops a 0 1) [channels ops a 1 2])) \<and>
         post_process ops p a = post_process ops (p\<lparr>enable_remove_cutoff_alias := Some False\<rparr>) a"
  using assms
  by (simp add: post_process_def alias_removal_enabled_def hasattr_def getattr_def)

theorem missing_alias_flag_witness:
  "enable_remove_cutoff_alias example_params = None \<and>
   post_process list_ops example_params [1 / 2, - 1] = Inr [1 / 2, - 1] \<and>
   post_process list_ops (example_params\<lparr>enable_remove_cutoff_alias := Some False\<rparr>) [1 / 2, - 1] =
     Inr [1 / 2, - 1] \<and>
   post_process list_ops (example_params\<lparr>enable_remove_cutoff_alias := Some True\<rparr>) [1 / 2, - 1] =
     Inr [7 / 2, 2]"
proof -
  have n: "enable_remove_cutoff_alias example_params = None"
    by (simp add: example_params_def)
  have on: "post_process list_ops (example_params\<lparr>enable_remove_cutoff_alias := Some True\<rparr>)
      [1 / 2, - 1] = Inr [7 / 2, 2]"
    by (simp add: post_process_def alias_removal_enabled_def hasattr_def getattr_def
        remove_cutoff_alias_def list_ops_def)
  note m = missing_alias_flag [OF n, of list_ops "[1 / 2, - 1]"]
  have absent: "post_process list_ops example_params [1 / 2, - 1] = Inr [1 / 2, - 1]"
    using m by (simp add: list_ops_def)
  have "post_process list_ops example_params [1 / 2, - 1] =
      post_process list_ops (example_params\<lparr>enable_remove_cutoff_alias := Some False\<rparr>) [1 / 2, - 1]"
    using m by (rule conjunct2)
  then have off: "post_process list_ops (example_params\<lparr>enable_remove_cutoff_alias := Some False\<rparr>)
      [1 / 2, - 1] = Inr [1 / 2, - 1]"
    using absent by (rule subst)
  show ?thesis using n absent off on by (intro conjI)
qed

end
